theory Spec2Isabelle
  imports Complex_Main "HOL-Library.Product_Lexorder"
begin

section \<open>Calendar\<close>

text \<open>
  Dates are the day ordinals of Python's \<^verbatim>\<open>datetime\<close> (\<^verbatim>\<open>toordinal()\<close>); adding
  \<^verbatim>\<open>timedelta(days=1)\<close> is \<open>+ 1\<close> and \<^verbatim>\<open>weekday()\<close> is \<open>(ordinal + 6) mod 7\<close>
  (Monday is 0, Sunday is 6). The calendar is taken as unbounded: the
  \<^verbatim>\<open>OverflowError\<close> of a date past the year 9999 is not modelled.
  \<^verbatim>\<open>PROJECT_START = datetime(2026, 1, 5)\<close> has ordinal 739621, a Monday.
\<close>

type_synonym date = int

definition weekday :: "date \<Rightarrow> int" where
  "weekday d = (d + 6) mod 7"

definition PROJECT_START :: date where
  "PROJECT_START = 739621"

definition HOURS_PER_DAY :: int where
  "HOURS_PER_DAY = 8"

text \<open>
  \<^verbatim>\<open>while start_date.weekday() > 4: start_date += timedelta(days=1)\<close>
  (resource_allocator.py, lines 77-78).
\<close>

function next_working_day :: "date \<Rightarrow> date" where
  "next_working_day d = (if weekday d > 4 then next_working_day (d + 1) else d)"
  by pat_completeness auto
termination
proof (relation "measure (\<lambda>d. if weekday d > 4 then nat (7 - weekday d) else 0)")
  show "wf (measure (\<lambda>d. if weekday d > 4 then nat (7 - weekday d) else 0))"
    by simp
next
  fix d :: date
  assume "4 < weekday d"
  then have "weekday d = 5 \<or> weekday d = 6"
    unfolding weekday_def by presburger
  then have "weekday (d + 1) = 6 \<and> weekday d = 5 \<or> weekday (d + 1) = 0 \<and> weekday d = 6"
    unfolding weekday_def by presburger
  then show "(d + 1, d) \<in> measure (\<lambda>d. if weekday d > 4 then nat (7 - weekday d) else 0)"
    by auto
qed

declare next_working_day.simps [simp del]

text \<open>
  \<^verbatim>\<open>_add_working_days\<close> (resource_allocator.py, lines 93-113): the loop state is
  \<open>(current_date, days_added)\<close>.
\<close>

function add_working_days_loop :: "date \<Rightarrow> int \<Rightarrow> int \<Rightarrow> date" where
  "add_working_days_loop current_date days_added working_days =
     (if days_added < working_days
      then (let current_date' = current_date + 1 in
            if weekday current_date' < 5
            then add_working_days_loop current_date' (days_added + 1) working_days
            else add_working_days_loop current_date' days_added working_days)
      else current_date)"
  by pat_completeness auto
termination
proof (relation "measure (\<lambda>(c, a, w). nat (3 * (w - a)) +
        (if weekday c = 4 then 2 else if weekday c = 5 then 1 else 0))")
  show "wf (measure (\<lambda>(c, a, w). nat (3 * (w - a)) +
        (if weekday c = 4 then 2 else if weekday c = 5 then 1 else 0)))"
    by simp
next
  fix c a w c' :: int
  assume "a < w" and c': "c' = c + 1" and wd: "weekday c' < 5"
  then have "nat (3 * (w - (a + 1))) + 3 = nat (3 * (w - a))"
    by simp
  then show "((c', a + 1, w), (c, a, w)) \<in> measure (\<lambda>(c, a, w). nat (3 * (w - a)) +
        (if weekday c = 4 then 2 else if weekday c = 5 then 1 else 0))"
    by auto
next
  fix c a w c' :: int
  assume "a < w" and c': "c' = c + 1" and wd: "\<not> weekday c' < 5"
  from wd have "weekday c' = 5 \<or> weekday c' = 6"
    unfolding weekday_def by presburger
  with c' have "weekday c = 4 \<and> weekday c' = 5 \<or> weekday c = 5 \<and> weekday c' = 6"
    unfolding weekday_def by presburger
  then show "((c', a, w), (c, a, w)) \<in> measure (\<lambda>(c, a, w). nat (3 * (w - a)) +
        (if weekday c = 4 then 2 else if weekday c = 5 then 1 else 0))"
    by auto
qed

declare add_working_days_loop.simps [simp del]

definition add_working_days :: "date \<Rightarrow> int \<Rightarrow> date" where
  "add_working_days start_date working_days =
     add_working_days_loop start_date 0 working_days"

section \<open>Data model\<close>

text \<open>
  \<^verbatim>\<open>Activity\<close> and \<^verbatim>\<open>Resource\<close> of data_models.py. Python integers are \<open>int\<close>; the
  hourly cost and the availability fraction are floats in the source and exact rationals
  here. A dictionary is an association list in insertion order (\<^verbatim>\<open>items()\<close> iterates
  it in that order, \<^verbatim>\<open>get\<close> is \<open>map_of\<close>). The fields \<^verbatim>\<open>id\<close> and \<^verbatim>\<open>name\<close> carry a
  prefix because both classes have them.
\<close>

datatype error = KeyError | ZeroDivisionError

record activity =
  act_id :: int
  act_name :: string
  duration_days :: int
  num_people :: int
  predecessors :: "int list"
  skill_requirements :: "(string \<times> int) list"

record resource =
  res_name :: string
  cost_per_hour :: rat
  availability_pct :: rat
  start_week :: int
  vacation_weeks :: "int list"
  skills :: "(string \<times> int) list"
  is_core_team :: bool
  assigned_tasks :: "int list"

text \<open>One entry of the schedule dictionary: \<^verbatim>\<open>{'start', 'end', 'duration_days'}\<close>.\<close>

record sched_entry =
  start :: "date option"
  end_date :: "date option"
  entry_duration_days :: int

type_synonym schedule_map = "int \<rightharpoonup> sched_entry"

section \<open>Scheduler\<close>

text \<open>The initialisation loop of \<^verbatim>\<open>calculate_activity_schedule\<close> (lines 43-48).\<close>

definition init_entry :: "activity \<Rightarrow> schedule_map \<Rightarrow> schedule_map" where
  "init_entry a sch =
     sch(act_id a \<mapsto>
           \<lparr>start = None, end_date = None, entry_duration_days = duration_days a\<rparr>)"

definition init_schedule :: "activity list \<Rightarrow> schedule_map" where
  "init_schedule acts = fold init_entry acts Map.empty"

text \<open>
  The loop over \<^verbatim>\<open>activity.predecessors\<close> (lines 63-70). The result is
  \<open>(predecessors_complete, latest_predecessor_end)\<close>; \<^verbatim>\<open>schedule[pred_id]\<close> raises
  \<^verbatim>\<open>KeyError\<close> for an id that is not a key, and the \<^verbatim>\<open>break\<close> leaves the loop at the
  first predecessor without an end date.
\<close>

fun check_predecessors :: "schedule_map \<Rightarrow> int list \<Rightarrow> date \<Rightarrow> error + (bool \<times> date)" where
  "check_predecessors sch [] latest = Inr (True, latest)"
| "check_predecessors sch (pred_id # rest) latest =
     (case sch pred_id of
        None \<Rightarrow> Inl KeyError
      | Some e \<Rightarrow>
          (case end_date e of
             None \<Rightarrow> Inr (False, latest)
           | Some d \<Rightarrow> check_predecessors sch rest (max latest d)))"

text \<open>
  One run of \<^verbatim>\<open>for activity in self.activities\<close> (lines 58-85), threading the schedule
  and the flag \<^verbatim>\<open>progress_made\<close>.
\<close>

fun schedule_pass :: "activity list \<Rightarrow> schedule_map \<Rightarrow> bool \<Rightarrow> error + (schedule_map \<times> bool)" where
  "schedule_pass [] sch progress_made = Inr (sch, progress_made)"
| "schedule_pass (a # rest) sch progress_made =
     (case sch (act_id a) of
        None \<Rightarrow> Inl KeyError
      | Some e \<Rightarrow>
          if start e \<noteq> None then schedule_pass rest sch progress_made
          else
            (case check_predecessors sch (predecessors a) PROJECT_START of
               Inl err \<Rightarrow> Inl err
             | Inr (predecessors_complete, latest_predecessor_end) \<Rightarrow>
                 if predecessors_complete then
                   (let start_date = next_working_day
                          (if predecessors a \<noteq> [] then latest_predecessor_end
                           else PROJECT_START);
                        end_d = add_working_days start_date (duration_days a)
                    in schedule_pass rest
                         (sch(act_id a \<mapsto> e\<lparr>start := Some start_date, end_date := Some end_d\<rparr>))
                         True)
                 else schedule_pass rest sch progress_made))"

text \<open>
  The \<^verbatim>\<open>while iteration < max_iterations\<close> loop (lines 54-88) with its
  \<^verbatim>\<open>break\<close> when a pass makes no progress.
\<close>

function schedule_while :: "nat \<Rightarrow> nat \<Rightarrow> activity list \<Rightarrow> schedule_map \<Rightarrow> error + schedule_map" where
  "schedule_while iteration max_iterations acts sch =
     (if iteration < max_iterations then
        (case schedule_pass acts sch False of
           Inl err \<Rightarrow> Inl err
         | Inr (sch', progress_made) \<Rightarrow>
             if \<not> progress_made then Inr sch'
             else schedule_while (iteration + 1) max_iterations acts sch')
      else Inr sch)"
  by pat_completeness auto
termination
  by (relation "measure (\<lambda>(i, m, acts, sch). m - i)") auto

declare schedule_while.simps [simp del]

definition calculate_activity_schedule :: "activity list \<Rightarrow> error + schedule_map" where
  "calculate_activity_schedule acts =
     schedule_while 0 (length acts * 2) acts (init_schedule acts)"

section \<open>Resource queries\<close>

text \<open>\<^verbatim>\<open>Resource.is_available\<close> and \<^verbatim>\<open>Resource.can_take_task\<close> (data_models.py, lines 76-86).\<close>

definition is_available :: "resource \<Rightarrow> int \<Rightarrow> bool" where
  "is_available r week =
     (if week < start_week r then False
      else if week \<in> set (vacation_weeks r) then False
      else True)"

definition can_take_task :: "resource \<Rightarrow> int \<Rightarrow> bool" where
  "can_take_task r max_tasks = (int (length (assigned_tasks r)) < max_tasks)"

text \<open>\<^verbatim>\<open>skills.get(skill, 0)\<close>.\<close>

definition skill_level :: "(string \<times> int) list \<Rightarrow> string \<Rightarrow> int" where
  "skill_level sk skill = (case map_of sk skill of None \<Rightarrow> 0 | Some l \<Rightarrow> l)"

text \<open>
  \<^verbatim>\<open>Resource.matches_skills\<close> (data_models.py, lines 88-104): the loop over
  \<^verbatim>\<open>requirements.items()\<close> with its early \<^verbatim>\<open>return (False, 0)\<close>.
\<close>

fun matches_skills_loop :: "resource \<Rightarrow> (string \<times> int) list \<Rightarrow> int \<Rightarrow> bool \<times> int" where
  "matches_skills_loop r [] surplus = (True, surplus)"
| "matches_skills_loop r ((skill, required_level) # rest) surplus =
     (if required_level > 0 then
        (let resource_level = skill_level (skills r) skill in
         if resource_level = 0 then (False, 0)
         else matches_skills_loop r rest (surplus + (resource_level - required_level)))
      else matches_skills_loop r rest surplus)"

definition matches_skills :: "resource \<Rightarrow> (string \<times> int) list \<Rightarrow> bool \<times> int" where
  "matches_skills r requirements = matches_skills_loop r requirements 0"

section \<open>Allocator\<close>

text \<open>
  The resource pool is a list of resource objects and an allocated resource is a
  reference into it, here its position in the list: the positions are distinct objects
  (the data model gives every resource its own name). The week of an activity
  (lines 174-179 and 218-220) is 1 when the schedule has no start date for it.
\<close>

definition activity_week :: "schedule_map \<Rightarrow> activity \<Rightarrow> int" where
  "activity_week sch a =
     (case sch (act_id a) of
        None \<Rightarrow> 1
      | Some e \<Rightarrow>
          (case start e of
             None \<Rightarrow> 1
           | Some s \<Rightarrow> (s - PROJECT_START) div 7 + 1))"

record candidate =
  cand_resource :: nat
  cand_surplus :: int
  cand_cost :: rat

text \<open>The body of the candidate loop (lines 183-199) for the resource at position \<open>i\<close>.\<close>

definition candidate_of :: "resource list \<Rightarrow> activity \<Rightarrow> int \<Rightarrow> int \<Rightarrow> nat \<Rightarrow> candidate option" where
  "candidate_of pool a week max_tasks i =
     (let r = pool ! i in
      if \<not> is_available r week then None
      else if \<not> can_take_task r max_tasks then None
      else
        (case matches_skills r (skill_requirements a) of
           (matches, surplus) \<Rightarrow>
             if matches
             then Some \<lparr>cand_resource = i, cand_surplus = surplus, cand_cost = cost_per_hour r\<rparr>
             else None))"

definition find_candidates :: "resource list \<Rightarrow> activity \<Rightarrow> int \<Rightarrow> int \<Rightarrow> candidate list" where
  "find_candidates pool a week max_tasks =
     List.map_filter (candidate_of pool a week max_tasks) [0..<length pool]"

text \<open>\<^verbatim>\<open>key=lambda x: (-x['surplus'], x['cost'])\<close>, compared as a tuple.\<close>

definition sort_key_of :: "candidate \<Rightarrow> int \<times> rat" where
  "sort_key_of c = (- cand_surplus c, cand_cost c)"

text \<open>\<^verbatim>\<open>resource.assigned_tasks.append(activity.id)\<close> on the resource at position \<open>i\<close>.\<close>

definition assign_task :: "int \<Rightarrow> resource list \<Rightarrow> nat \<Rightarrow> resource list" where
  "assign_task aid pool i =
     pool[i := (pool ! i)\<lparr>assigned_tasks := assigned_tasks (pool ! i) @ [aid]\<rparr>]"

text \<open>
  \<^verbatim>\<open>_allocate_to_activity\<close> (lines 162-214): the list of allocated resources and the
  pool after the appends. Python's \<^verbatim>\<open>list.sort\<close> is stable, as \<open>sort_key\<close> is.
\<close>

definition allocate_to_activity ::
  "schedule_map \<Rightarrow> resource list \<Rightarrow> activity \<Rightarrow> int \<Rightarrow> nat list \<times> resource list" where
  "allocate_to_activity sch pool a max_tasks =
     (let week = activity_week sch a;
          candidates = find_candidates pool a week max_tasks
      in if candidates = [] then ([], pool)
         else
           (let sorted_candidates = sort_key sort_key_of candidates;
                n = nat (min (num_people a) (int (length sorted_candidates)));
                allocated = map cand_resource (take n sorted_candidates)
            in (allocated, fold (\<lambda>i p. assign_task (act_id a) p i) allocated pool)))"

text \<open>The loop of \<^verbatim>\<open>_allocate_fallback\<close> (lines 222-228) over the pool positions.\<close>

fun allocate_fallback_loop ::
  "activity \<Rightarrow> int \<Rightarrow> int \<Rightarrow> nat list \<Rightarrow> nat list \<Rightarrow> resource list \<Rightarrow> nat list \<times> resource list" where
  "allocate_fallback_loop a week max_tasks [] allocated pool = (allocated, pool)"
| "allocate_fallback_loop a week max_tasks (i # rest) allocated pool =
     (if int (length allocated) \<ge> num_people a then (allocated, pool)
      else if is_available (pool ! i) week \<and> can_take_task (pool ! i) max_tasks
      then allocate_fallback_loop a week max_tasks rest (allocated @ [i])
             (assign_task (act_id a) pool i)
      else allocate_fallback_loop a week max_tasks rest allocated pool)"

section \<open>Duration adjustment\<close>

text \<open>
  The two nested loops of \<^verbatim>\<open>_adjust_duration\<close> (lines 248-253), threading
  \<^verbatim>\<open>total_surplus\<close>.
\<close>

fun surplus_of_skills :: "resource \<Rightarrow> (string \<times> int) list \<Rightarrow> int \<Rightarrow> int" where
  "surplus_of_skills r [] total_surplus = total_surplus"
| "surplus_of_skills r ((skill, required_level) # rest) total_surplus =
     (if required_level > 0 then
        (let resource_level = skill_level (skills r) skill in
         surplus_of_skills r rest (total_surplus + max 0 (resource_level - required_level)))
      else surplus_of_skills r rest total_surplus)"

fun surplus_of_resources :: "resource list \<Rightarrow> (string \<times> int) list \<Rightarrow> int \<Rightarrow> int" where
  "surplus_of_resources [] reqs total_surplus = total_surplus"
| "surplus_of_resources (r # rest) reqs total_surplus =
     surplus_of_resources rest reqs (surplus_of_skills r reqs total_surplus)"

text \<open>Python's \<^verbatim>\<open>int()\<close> of a float truncates towards zero.\<close>

definition py_int :: "rat \<Rightarrow> int" where
  "py_int x = (if x \<ge> 0 then \<lfloor>x\<rfloor> else \<lceil>x\<rceil>)"

text \<open>
  \<^verbatim>\<open>_adjust_duration\<close> (lines 234-266). The float arithmetic of lines 260-263 is
  exact rational arithmetic here; the true division raises \<^verbatim>\<open>ZeroDivisionError\<close> for a
  zero divisor.
\<close>

definition adjust_duration :: "activity \<Rightarrow> resource list \<Rightarrow> int \<Rightarrow> error + int" where
  "adjust_duration a allocated_resources factor =
     (let total_surplus = surplus_of_resources allocated_resources (skill_requirements a) 0;
          base_hours = num_people a * duration_days a * HOURS_PER_DAY;
          adjustment_hours = factor * total_surplus;
          adjusted_hours = max (of_int base_hours * (1 / 2)) (of_int (base_hours - adjustment_hours))
      in if num_people a * HOURS_PER_DAY = 0 then Inl ZeroDivisionError
         else
           (let adjusted_days =
                  py_int (adjusted_hours / of_int (num_people a * HOURS_PER_DAY) + 1 / 2)
            in Inr (max 1 adjusted_days)))"

section \<open>The allocation pass\<close>

text \<open>
  The state of a \<^verbatim>\<open>ResourceAllocator\<close> and what it prints. The allocation map holds
  resource references (pool positions). The printed lines are kept as events, since the
  warning of a failed allocation is one of them.
\<close>

datatype event =
    Starting
  | AllocatingFor int
  | Allocated "string list"
  | DurationAdjusted int int
  | Warning
  | FallbackAllocated "string list"

record allocator =
  activities :: "activity list"
  resources :: "resource list"
  allocation_map :: "int \<rightharpoonup> nat list"
  schedule :: schedule_map
  printed :: "event list"

text \<open>\<^verbatim>\<open>_allocate_fallback\<close> (lines 216-232).\<close>

definition allocate_fallback :: "allocator \<Rightarrow> activity \<Rightarrow> int \<Rightarrow> allocator" where
  "allocate_fallback st a max_tasks =
     (let week = activity_week (schedule st) a in
      case allocate_fallback_loop a week max_tasks [0..<length (resources st)] [] (resources st) of
        (allocated, pool') \<Rightarrow>
          if allocated \<noteq> []
          then st\<lparr>resources := pool',
                  allocation_map := (allocation_map st)(act_id a \<mapsto> allocated),
                  printed := printed st @ [FallbackAllocated (map (\<lambda>i. res_name (pool' ! i)) allocated)]\<rparr>
          else st\<lparr>resources := pool'\<rparr>)"

text \<open>
  The body of the loop of \<^verbatim>\<open>allocate_resources\<close> (lines 133-155) for the activity at
  position \<open>k\<close> of \<^verbatim>\<open>self.activities\<close>. Rescheduling can raise, so the step returns an
  error or the new state.
\<close>

definition allocate_step :: "int \<Rightarrow> int \<Rightarrow> allocator \<Rightarrow> nat \<Rightarrow> error + allocator" where
  "allocate_step max_tasks_per_resource duration_adjustment_factor st0 k =
     (let st = st0\<lparr>printed := printed st0 @ [AllocatingFor (act_id (activities st0 ! k))]\<rparr>;
          a = activities st ! k
      in case allocate_to_activity (schedule st) (resources st) a max_tasks_per_resource of
           (allocated, pool') \<Rightarrow>
             if allocated \<noteq> [] then
               (let st1 = st\<lparr>resources := pool',
                              allocation_map := (allocation_map st)(act_id a \<mapsto> allocated),
                              printed := printed st @
                                [Allocated (map (\<lambda>i. res_name (pool' ! i)) allocated)]\<rparr>
                in case adjust_duration a (map (\<lambda>i. pool' ! i) allocated)
                          duration_adjustment_factor of
                     Inl err \<Rightarrow> Inl err
                   | Inr adjusted_duration \<Rightarrow>
                       if adjusted_duration \<noteq> duration_days a then
                         (let acts' = (activities st1)[k := a\<lparr>duration_days := adjusted_duration\<rparr>]
                          in case calculate_activity_schedule acts' of
                               Inl err \<Rightarrow> Inl err
                             | Inr sch \<Rightarrow>
                                 Inr (st1\<lparr>activities := acts',
                                          schedule := sch,
                                          printed := printed st1 @
                                            [DurationAdjusted (duration_days a) adjusted_duration]\<rparr>))
                       else Inr st1)
             else
               Inr (allocate_fallback (st\<lparr>printed := printed st @ [Warning]\<rparr>) a
                      max_tasks_per_resource))"

fun allocate_loop :: "int \<Rightarrow> int \<Rightarrow> nat list \<Rightarrow> allocator \<Rightarrow> error + allocator" where
  "allocate_loop max_tasks factor [] st = Inr st"
| "allocate_loop max_tasks factor (k # rest) st =
     (case allocate_step max_tasks factor st k of
        Inl err \<Rightarrow> Inl err
      | Inr st' \<Rightarrow> allocate_loop max_tasks factor rest st')"

text \<open>
  Steps 1 and 2 of \<^verbatim>\<open>allocate_resources\<close> (lines 127-155): the first schedule, then the
  activities in ascending id order (\<^verbatim>\<open>sorted\<close> is stable). Step 3, the cost report of
  \<^verbatim>\<open>_calculate_results\<close>, reads the state this returns and is not part of the model.
\<close>

definition allocation_pass :: "allocator \<Rightarrow> int \<Rightarrow> int \<Rightarrow> error + allocator" where
  "allocation_pass st max_tasks_per_resource duration_adjustment_factor =
     (case calculate_activity_schedule (activities st) of
        Inl err \<Rightarrow> Inl err
      | Inr sch \<Rightarrow>
          allocate_loop max_tasks_per_resource duration_adjustment_factor
            (sort_key (\<lambda>k. act_id (activities st ! k)) [0..<length (activities st)])
            (st\<lparr>schedule := sch, printed := printed st @ [Starting]\<rparr>))"

section \<open>Risk optimizer\<close>

text \<open>
  A mitigation option (a dictionary with the keys \<^verbatim>\<open>id, name, cost, cost_reduction,
  time_reduction\<close>), \<^verbatim>\<open>Risk\<close> of data_models.py and the strategy dictionary the optimizer
  returns. Probabilities and amounts are exact rationals; \<^verbatim>\<open>float('-inf')\<close> is \<open>None\<close>
  in \<open>best_net_benefit\<close>. The rounding of the code's double arithmetic is not modelled:
  the model agrees with the code wherever the sums and products involved are exact in
  doubles, as they are for the example data below.
\<close>

record mitigation =
  mit_id :: string
  mit_name :: string
  cost :: rat
  cost_reduction :: rat
  time_reduction :: rat

record risk =
  risk_id :: int
  risk_name :: string
  activity_id :: int
  probability :: rat
  cost_impact :: rat
  time_impact_days :: int
  mitigation_options :: "mitigation list"

record strategy =
  mitigations :: "mitigation list"
  total_cost :: rat
  expected_reduction :: rat
  expected_time_reduction :: rat
  net_benefit :: rat

text \<open>
  \<^verbatim>\<open>if budget_constraint and total_cost > budget_constraint: continue\<close> (line 89):
  \<^verbatim>\<open>None\<close> and \<^verbatim>\<open>0\<close> are both false in the first conjunct.
\<close>

definition over_budget :: "rat option \<Rightarrow> rat \<Rightarrow> bool" where
  "over_budget budget_constraint cost_total =
     (case budget_constraint of
        None \<Rightarrow> False
      | Some b \<Rightarrow> b \<noteq> 0 \<and> cost_total > b)"

text \<open>The loop over \<^verbatim>\<open>zip(self.risks, combination)\<close> (lines 96-106).\<close>

fun benefit_loop :: "(risk \<times> mitigation) list \<Rightarrow> rat \<times> rat \<Rightarrow> rat \<times> rat" where
  "benefit_loop [] totals = totals"
| "benefit_loop ((r, m) # rest) (total_cost_reduction, total_time_reduction) =
     (let time_value = 1000;
          expected_benefit = probability r * (cost_reduction m + time_reduction m * time_value)
      in benefit_loop rest
           (total_cost_reduction + expected_benefit,
            total_time_reduction + probability r * time_reduction m))"

text \<open>\<^verbatim>\<open>net_benefit > best_net_benefit\<close>, where the best so far may be \<open>-inf\<close>.\<close>

definition exceeds :: "rat \<Rightarrow> rat option \<Rightarrow> bool" where
  "exceeds x best = (case best of None \<Rightarrow> True | Some b \<Rightarrow> x > b)"

text \<open>
  The loop over \<^verbatim>\<open>itertools.product(*mitigation_combinations)\<close> (lines 84-119), on the
  state \<open>(best_strategy, best_net_benefit)\<close>.
\<close>

fun optimize_loop ::
  "risk list \<Rightarrow> rat option \<Rightarrow> mitigation list list \<Rightarrow> strategy option \<times> rat option
     \<Rightarrow> strategy option \<times> rat option" where
  "optimize_loop risks budget_constraint [] best = best"
| "optimize_loop risks budget_constraint (combination # rest) (best_strategy, best_net_benefit) =
     (let cost_total = sum_list (map cost combination) in
      if over_budget budget_constraint cost_total
      then optimize_loop risks budget_constraint rest (best_strategy, best_net_benefit)
      else
        (case benefit_loop (zip risks combination) (0, 0) of
           (total_cost_reduction, total_time_reduction) \<Rightarrow>
             (let net = total_cost_reduction - cost_total in
              if exceeds net best_net_benefit
              then optimize_loop risks budget_constraint rest
                     (Some \<lparr>mitigations = combination,
                            total_cost = cost_total,
                            expected_reduction = total_cost_reduction,
                            expected_time_reduction = total_time_reduction,
                            net_benefit = net\<rparr>,
                      Some net)
              else optimize_loop risks budget_constraint rest (best_strategy, best_net_benefit))))"

text \<open>
  \<^verbatim>\<open>optimize_mitigation_strategy\<close> (lines 57-138): the returned \<^verbatim>\<open>best_strategy\<close>
  (\<open>None\<close> when no combination was accepted). \<open>product_lists\<close> enumerates in the order
  of \<^verbatim>\<open>itertools.product\<close>, the last position varying fastest. Storing the selection on
  the risks and the printing are effects no result depends on and are left out.
\<close>

definition optimize_mitigation_strategy :: "risk list \<Rightarrow> rat option \<Rightarrow> strategy option" where
  "optimize_mitigation_strategy risks budget_constraint =
     fst (optimize_loop risks budget_constraint
            (product_lists (map mitigation_options risks)) (None, None))"

section \<open>Example data\<close>

text \<open>
  A risk with two options in the style of \<^verbatim>\<open>RISKS\<close> (data_models.py, lines 225-249):
  a paid mitigation and the free "accept the risk" choice.
\<close>

definition buy_option :: mitigation where
  "buy_option = \<lparr>mit_id = ''A'', mit_name = ''Buy spare'', cost = 100,
     cost_reduction = 1000, time_reduction = 0\<rparr>"

definition accept_option :: mitigation where
  "accept_option = \<lparr>mit_id = ''E'', mit_name = ''Accept risk'', cost = 0,
     cost_reduction = 0, time_reduction = 0\<rparr>"

definition demo_risk :: risk where
  "demo_risk = \<lparr>risk_id = 1, risk_name = ''Server failure'', activity_id = 7,
     probability = 1 / 2, cost_impact = 8000, time_impact_days = 2,
     mitigation_options = [buy_option, accept_option]\<rparr>"

section \<open>Closed forms for the duration adjustment\<close>


text \<open>The same sum with every deficit counted as 0.\<close>

definition skill_surplus_floored :: "resource list \<Rightarrow> (string \<times> int) list \<Rightarrow> int" where
  "skill_surplus_floored rs reqs =
     (\<Sum>r\<leftarrow>rs. \<Sum>(skill, required_level)\<leftarrow>reqs.
        if required_level > 0 then max 0 (skill_level (skills r) skill - required_level) else 0)"

text \<open>
  The adjusted duration as the specification words it, for a given total surplus:
  baseline effort is headcount times duration times 8 hours; the factor times the surplus
  is subtracted; the result is floored at half of the baseline, divided by headcount
  times 8, rounded to the nearest integer and clamped to at least 1.
\<close>

definition adjusted_duration_formula :: "activity \<Rightarrow> int \<Rightarrow> int \<Rightarrow> int" where
  "adjusted_duration_formula a factor surplus =
     (let baseline = of_int (num_people a * duration_days a * 8) :: rat;
          reduced = max (baseline / 2) (baseline - of_int (factor * surplus))
      in max 1 (round (reduced / of_int (num_people a * 8))))"

text \<open>
  An activity and a resource that has every required skill, one of them below the
  required level.
\<close>

definition deficit_activity :: activity where
  "deficit_activity = \<lparr>act_id = 1, act_name = ''Site survey'', duration_days = 10,
     num_people = 1, predecessors = [],
     skill_requirements = [(''Petroleum'', 6), (''Construction'', 1)]\<rparr>"

definition deficit_resource :: resource where
  "deficit_resource = \<lparr>res_name = ''Marco'', cost_per_hour = 89, availability_pct = 1,
     start_week = 1, vacation_weeks = [],
     skills = [(''Petroleum'', 1), (''Construction'', 6)],
     is_core_team = False, assigned_tasks = []\<rparr>"

section \<open>Notions used to state the scheduler's properties\<close>

text \<open>
  The number of working days (Monday to Friday) after \<open>s\<close> up to and including \<open>e\<close>.
\<close>

definition working_day_span :: "date \<Rightarrow> date \<Rightarrow> nat" where
  "working_day_span s e = length (filter (\<lambda>d. weekday d < 5) [s + 1..e])"

text \<open>
  \<open>pred_edge acts i p\<close>: an activity with id \<open>i\<close> names \<open>p\<close> as a predecessor. An id is
  blocked when it lies on a predecessor cycle or reaches one through predecessors.
\<close>

definition pred_edge :: "activity list \<Rightarrow> int \<Rightarrow> int \<Rightarrow> bool" where
  "pred_edge acts i p \<longleftrightarrow> (\<exists>a\<in>set acts. act_id a = i \<and> p \<in> set (predecessors a))"

definition blocked :: "activity list \<Rightarrow> int \<Rightarrow> bool" where
  "blocked acts i \<longleftrightarrow> (\<exists>j. (pred_edge acts)\<^sup>*\<^sup>* i j \<and> (pred_edge acts)\<^sup>+\<^sup>+ j j)"

text \<open>
  The invariant of the forward pass: the keys are the activity ids; an entry without a
  start has no end; an entry with a start \<open>s\<close> has a working day as start, its end is the
  activity's duration in working days after \<open>s\<close>, and every predecessor is scheduled and
  ends no later than \<open>s\<close>; no scheduled id lies on a cycle.
\<close>

definition entry_ok :: "schedule_map \<Rightarrow> activity \<Rightarrow> sched_entry \<Rightarrow> bool" where
  "entry_ok sch a e \<longleftrightarrow>
     (start e = None \<longrightarrow> end_date e = None) \<and>
     (\<forall>s. start e = Some s \<longrightarrow>
        weekday s \<le> 4 \<and>
        end_date e = Some (add_working_days s (duration_days a)) \<and>
        (predecessors a = [] \<longrightarrow> s = next_working_day PROJECT_START) \<and>
        (\<forall>p\<in>set (predecessors a).
           \<exists>ep d. sch p = Some ep \<and> start ep \<noteq> None \<and> end_date ep = Some d \<and> d \<le> s))"

definition schedule_inv :: "activity list \<Rightarrow> schedule_map \<Rightarrow> bool" where
  "schedule_inv acts sch \<longleftrightarrow>
     dom sch = act_id ` set acts \<and>
     (\<forall>a\<in>set acts. \<forall>e. sch (act_id a) = Some e \<longrightarrow> entry_ok sch a e) \<and>
     (\<forall>i e s. sch i = Some e \<longrightarrow> start e = Some s \<longrightarrow> \<not> (pred_edge acts)\<^sup>+\<^sup>+ i i)"

text \<open>
  Three activity sets in the style of \<^verbatim>\<open>ACTIVITIES\<close> (data_models.py, lines 130-181): a
  chain of dependent activities, a set with a predecessor cycle (1 and 2 name each other,
  4 depends on 2), and an activity that names an id no activity has.
\<close>

definition chain_activities :: "activity list" where
  "chain_activities =
     [\<lparr>act_id = 1, act_name = ''Specification'', duration_days = 5, num_people = 3,
        predecessors = [], skill_requirements = [(''Finance'', 2)]\<rparr>,
      \<lparr>act_id = 2, act_name = ''Site requirements'', duration_days = 7, num_people = 1,
        predecessors = [1], skill_requirements = [(''Construction'', 4)]\<rparr>,
      \<lparr>act_id = 3, act_name = ''Contracts'', duration_days = 3, num_people = 2,
        predecessors = [1, 2], skill_requirements = [(''Finance'', 5)]\<rparr>]"

definition cyclic_activities :: "activity list" where
  "cyclic_activities =
     [\<lparr>act_id = 1, act_name = ''Design'', duration_days = 5, num_people = 1,
        predecessors = [2], skill_requirements = []\<rparr>,
      \<lparr>act_id = 2, act_name = ''Review'', duration_days = 2, num_people = 1,
        predecessors = [1], skill_requirements = []\<rparr>,
      \<lparr>act_id = 3, act_name = ''Survey'', duration_days = 4, num_people = 1,
        predecessors = [], skill_requirements = []\<rparr>,
      \<lparr>act_id = 4, act_name = ''Build'', duration_days = 6, num_people = 1,
        predecessors = [3, 2], skill_requirements = []\<rparr>]"

definition dangling_activities :: "activity list" where
  "dangling_activities =
     [\<lparr>act_id = 1, act_name = ''Design'', duration_days = 5, num_people = 1,
        predecessors = [99], skill_requirements = []\<rparr>]"

section \<open>Notions used to state the allocator's properties\<close>

text \<open>
  The specification's notions for the skill match. A resource has the required skills when
  its level is not 0 for every skill the activity requires (a required level above 0).
\<close>

definition has_required_skills :: "resource \<Rightarrow> (string \<times> int) list \<Rightarrow> bool" where
  "has_required_skills r reqs \<longleftrightarrow>
     (\<forall>(skill, required_level)\<in>set reqs.
        required_level > 0 \<longrightarrow> skill_level (skills r) skill \<noteq> 0)"

text \<open>
  The surplus score: over the required skills, the resource's level minus the required
  level, deficits included.
\<close>

definition surplus_score :: "resource \<Rightarrow> (string \<times> int) list \<Rightarrow> int" where
  "surplus_score r reqs =
     (\<Sum>(skill, required_level)\<leftarrow>reqs.
        if required_level > 0 then skill_level (skills r) skill - required_level else 0)"

text \<open>
  The resource at position \<open>i\<close> of the pool qualifies for an activity in a week: it has
  started, is not on vacation that week, is below the task cap and has the required skills.
\<close>

definition qualifies :: "resource list \<Rightarrow> activity \<Rightarrow> int \<Rightarrow> int \<Rightarrow> nat \<Rightarrow> bool" where
  "qualifies pool a week max_tasks i \<longleftrightarrow>
     start_week (pool ! i) \<le> week \<and>
     week \<notin> set (vacation_weeks (pool ! i)) \<and>
     int (length (assigned_tasks (pool ! i))) < max_tasks \<and>
     has_required_skills (pool ! i) (skill_requirements a)"

text \<open>The qualifying pool positions, in pool order.\<close>

definition qualifying :: "resource list \<Rightarrow> activity \<Rightarrow> int \<Rightarrow> int \<Rightarrow> nat list" where
  "qualifying pool a week max_tasks = filter (qualifies pool a week max_tasks) [0..<length pool]"

text \<open>
  The ranking: higher surplus first; on equal surplus, the lower hourly cost first.
\<close>

definition ranks_before :: "resource list \<Rightarrow> activity \<Rightarrow> nat \<Rightarrow> nat \<Rightarrow> bool" where
  "ranks_before pool a i j \<longleftrightarrow>
     surplus_score (pool ! i) (skill_requirements a) > surplus_score (pool ! j) (skill_requirements a) \<or>
     surplus_score (pool ! i) (skill_requirements a) = surplus_score (pool ! j) (skill_requirements a) \<and>
       cost_per_hour (pool ! i) \<le> cost_per_hour (pool ! j)"

text \<open>
  A resource pool in the style of \<^verbatim>\<open>RESOURCES\<close> (data_models.py, lines 184-222) and two
  activities with the same requirements and a headcount of 2 and of 4. In week 1 Ana lacks
  a required skill, Tim has not started, and the other three qualify.
\<close>

definition team_activity :: activity where
  "team_activity = \<lparr>act_id = 5, act_name = ''Contract negotiations'', duration_days = 8,
     num_people = 2, predecessors = [],
     skill_requirements = [(''Finance'', 4), (''Procurement'', 3)]\<rparr>"

definition large_activity :: activity where
  "large_activity = \<lparr>act_id = 7, act_name = ''Project expertise'', duration_days = 15,
     num_people = 4, predecessors = [],
     skill_requirements = [(''Finance'', 4), (''Procurement'', 3)]\<rparr>"

definition team_pool :: "resource list" where
  "team_pool =
     [\<lparr>res_name = ''Ana'', cost_per_hour = 160, availability_pct = 1, start_week = 1,
        vacation_weeks = [3], skills = [(''Petroleum'', 6), (''Finance'', 6)],
        is_core_team = False, assigned_tasks = []\<rparr>,
      \<lparr>res_name = ''Leandro'', cost_per_hour = 97, availability_pct = 1, start_week = 1,
        vacation_weeks = [4, 5], skills = [(''Finance'', 4), (''Procurement'', 6)],
        is_core_team = False, assigned_tasks = []\<rparr>,
      \<lparr>res_name = ''Susana'', cost_per_hour = 151, availability_pct = 4 / 5, start_week = 1,
        vacation_weeks = [6], skills = [(''Finance'', 5), (''Procurement'', 5)],
        is_core_team = True, assigned_tasks = []\<rparr>,
      \<lparr>res_name = ''Paulo'', cost_per_hour = 175, availability_pct = 1, start_week = 1,
        vacation_weeks = [], skills = [(''Finance'', 6), (''Procurement'', 6)],
        is_core_team = False, assigned_tasks = []\<rparr>,
      \<lparr>res_name = ''Tim'', cost_per_hour = 97, availability_pct = 1, start_week = 3,
        vacation_weeks = [7, 8], skills = [(''Finance'', 6), (''Procurement'', 6)],
        is_core_team = True, assigned_tasks = []\<rparr>]"

text \<open>
  The appends of one allocation, in order: \<open>trace\<close> lists the pool positions whose task
  list receives the activity id. Before the \<open>k\<close>-th append the pool is the initial pool
  after the first \<open>k\<close> appends; the resource appended to must then be in the pool, have
  started by the activity's week, not be on vacation in it, and hold fewer tasks than the cap.
\<close>

definition assignment_ok :: "int \<Rightarrow> int \<Rightarrow> int \<Rightarrow> resource list \<Rightarrow> nat list \<Rightarrow> bool" where
  "assignment_ok aid week max_tasks pool trace \<longleftrightarrow>
     (\<forall>k<length trace.
        trace ! k < length pool \<and>
        (let r = fold (\<lambda>i p. assign_task aid p i) (take k trace) pool ! (trace ! k)
         in start_week r \<le> week \<and>
            week \<notin> set (vacation_weeks r) \<and>
            int (length (assigned_tasks r)) < max_tasks))"

text \<open>An allocator over the example pool, before any scheduling.\<close>

definition team_state :: allocator where
  "team_state = \<lparr>activities = [large_activity, team_activity], resources = team_pool,
     allocation_map = Map.empty, schedule = Map.empty, printed = []\<rparr>"

text \<open>
  What one step of the allocation pass printed, and whether the fallback path ran in it:
  the warning is printed before \<^verbatim>\<open>_allocate_fallback\<close> is called, the fallback line by it.
\<close>

definition new_events :: "allocator \<Rightarrow> allocator \<Rightarrow> event list" where
  "new_events st st' = drop (length (printed st)) (printed st')"

definition fallback_ran :: "allocator \<Rightarrow> allocator \<Rightarrow> bool" where
  "fallback_ran st st' \<longleftrightarrow>
     Warning \<in> set (new_events st st') \<or>
     (\<exists>names. FallbackAllocated names \<in> set (new_events st st'))"

section \<open>Notions used to state the optimizer's properties\<close>

text \<open>
  The net benefit of a combination as the specification words it: over the risks, the
  probability times (cost reduction plus time reduction valued at 1000 per day), minus the
  sum of the chosen options' costs.
\<close>

definition net_benefit_of :: "risk list \<Rightarrow> mitigation list \<Rightarrow> rat" where
  "net_benefit_of risks combination =
     (\<Sum>(r, m)\<leftarrow>zip risks combination.
        probability r * (cost_reduction m + time_reduction m * 1000))
     - (\<Sum>m\<leftarrow>combination. cost m)"

text \<open>The strategy dictionary the optimizer builds for a combination.\<close>

definition strategy_of :: "risk list \<Rightarrow> mitigation list \<Rightarrow> strategy" where
  "strategy_of risks combination =
     \<lparr>mitigations = combination,
      total_cost = (\<Sum>m\<leftarrow>combination. cost m),
      expected_reduction =
        (\<Sum>(r, m)\<leftarrow>zip risks combination.
           probability r * (cost_reduction m + time_reduction m * 1000)),
      expected_time_reduction =
        (\<Sum>(r, m)\<leftarrow>zip risks combination. probability r * time_reduction m),
      net_benefit = net_benefit_of risks combination\<rparr>"

text \<open>The combinations the budget test of line 89 lets through.\<close>

definition within_budget :: "rat option \<Rightarrow> mitigation list \<Rightarrow> bool" where
  "within_budget budget_constraint combination \<longleftrightarrow>
     \<not> over_budget budget_constraint (\<Sum>m\<leftarrow>combination. cost m)"

section \<open>Properties of the calendar\<close>

lemma next_working_day_weekday: "weekday (next_working_day d) \<le> 4"
  by (induction d rule: next_working_day.induct) (subst next_working_day.simps, simp)

lemma next_working_day_ge: "d \<le> next_working_day d"
proof (induction d rule: next_working_day.induct)
  case (1 d)
  show ?case
  proof (cases "weekday d > 4")
    case True
    with 1 have "d + 1 \<le> next_working_day (d + 1)" by simp
    moreover have "next_working_day d = next_working_day (d + 1)"
      using True by (subst next_working_day.simps) simp
    ultimately show ?thesis by simp
  next
    case False
    then show ?thesis by (subst next_working_day.simps) simp
  qed
qed

lemma next_working_day_id: "weekday d \<le> 4 \<Longrightarrow> next_working_day d = d"
  by (subst next_working_day.simps) simp

lemma add_working_days_loop_ge: "c \<le> add_working_days_loop c a w"
proof (induction c a w rule: add_working_days_loop.induct)
  case (1 c a w)
  show ?case
  proof (cases "a < w")
    case False
    then show ?thesis by (subst add_working_days_loop.simps) simp
  next
    case True
    show ?thesis
    proof (cases "weekday (c + 1) < 5")
      case wd: True
      have "c + 1 \<le> add_working_days_loop (c + 1) (a + 1) w"
        using "1.IH"(1) [OF True refl wd] .
      moreover have "add_working_days_loop c a w = add_working_days_loop (c + 1) (a + 1) w"
        using True wd by (subst add_working_days_loop.simps) (simp add: Let_def)
      ultimately show ?thesis by simp
    next
      case wd: False
      have "c + 1 \<le> add_working_days_loop (c + 1) a w"
        using "1.IH"(2) [OF True refl wd] .
      moreover have "add_working_days_loop c a w = add_working_days_loop (c + 1) a w"
        using True wd by (subst add_working_days_loop.simps) (simp add: Let_def)
      ultimately show ?thesis by simp
    qed
  qed
qed

lemma add_working_days_loop_span:
  "a \<le> w \<Longrightarrow> int (working_day_span c (add_working_days_loop c a w)) = w - a"
proof (induction c a w rule: add_working_days_loop.induct)
  case (1 c a w)
  show ?case
  proof (cases "a < w")
    case False
    with "1.prems" have "a = w" by simp
    then show ?thesis
      by (subst add_working_days_loop.simps) (simp add: working_day_span_def)
  next
    case True
    let ?r = "add_working_days_loop c a w"
    have ge: "c + 1 \<le> ?r"
      using True add_working_days_loop_ge [of "c + 1"]
      by (subst add_working_days_loop.simps) (simp add: Let_def)
    have split: "[c + 1..?r] = (c + 1) # [c + 1 + 1..?r]"
      using ge by (simp add: upto_rec1)
    show ?thesis
    proof (cases "weekday (c + 1) < 5")
      case wd: True
      have r: "?r = add_working_days_loop (c + 1) (a + 1) w"
        using True wd by (subst add_working_days_loop.simps) (simp add: Let_def)
      have "int (working_day_span (c + 1) (add_working_days_loop (c + 1) (a + 1) w)) = w - (a + 1)"
        using "1.IH"(1) [OF True refl wd] True by simp
      then show ?thesis
        using wd split r by (simp add: working_day_span_def)
    next
      case wd: False
      have r: "?r = add_working_days_loop (c + 1) a w"
        using True wd by (subst add_working_days_loop.simps) (simp add: Let_def)
      have "int (working_day_span (c + 1) (add_working_days_loop (c + 1) a w)) = w - a"
        using "1.IH"(2) [OF True refl wd] "1.prems" by simp
      then show ?thesis
        using wd split r by (simp add: working_day_span_def)
    qed
  qed
qed

lemma add_working_days_ge: "s \<le> add_working_days s n"
  by (simp add: add_working_days_def add_working_days_loop_ge)

lemma add_working_days_span: "0 \<le> n \<Longrightarrow> int (working_day_span s (add_working_days s n)) = n"
  using add_working_days_loop_span [of 0 n s] by (simp add: add_working_days_def)

section \<open>Properties of the scheduler\<close>

lemma check_predecessors_complete:
  "check_predecessors sch ps l = Inr (True, l') \<Longrightarrow>
     l \<le> l' \<and> (\<forall>p\<in>set ps. \<exists>ep d. sch p = Some ep \<and> end_date ep = Some d \<and> d \<le> l')"
proof (induction ps arbitrary: l)
  case Nil
  then show ?case by simp
next
  case (Cons p ps)
  from Cons.prems obtain ep d where ep: "sch p = Some ep" "end_date ep = Some d"
    and rest: "check_predecessors sch ps (max l d) = Inr (True, l')"
    by (auto split: option.splits)
  from Cons.IH [OF rest] have "max l d \<le> l'"
    and "\<forall>q\<in>set ps. \<exists>eq d. sch q = Some eq \<and> end_date eq = Some d \<and> d \<le> l'"
    by simp_all
  with ep show ?case by auto
qed

lemma check_predecessors_no_error:
  "set ps \<subseteq> dom sch \<Longrightarrow> \<exists>r. check_predecessors sch ps l = Inr r"
  by (induction ps arbitrary: l) (auto split: option.splits)

lemma init_schedule_fold_dom:
  "dom (fold init_entry acts m) = dom m \<union> act_id ` set acts"
  by (induction acts arbitrary: m) (auto simp: init_entry_def)

lemma init_schedule_fold_blank:
  assumes "\<And>i e. m i = Some e \<Longrightarrow> start e = None \<and> end_date e = None"
    and "fold init_entry acts m i = Some e"
  shows "start e = None \<and> end_date e = None"
  using assms
proof (induction acts arbitrary: m)
  case Nil
  then show ?case by simp
next
  case (Cons a acts)
  have "\<And>i e. init_entry a m i = Some e \<Longrightarrow> start e = None \<and> end_date e = None"
    using Cons.prems(1) by (auto simp: init_entry_def split: if_splits)
  moreover from Cons.prems(2) have "fold init_entry acts (init_entry a m) i = Some e"
    by simp
  ultimately show ?case by (rule Cons.IH)
qed

lemma init_schedule_dom: "dom (init_schedule acts) = act_id ` set acts"
  by (simp add: init_schedule_def init_schedule_fold_dom)

lemma init_schedule_blank:
  assumes "init_schedule acts i = Some e"
  shows "start e = None \<and> end_date e = None"
proof (rule init_schedule_fold_blank)
  show "fold init_entry acts Map.empty i = Some e"
    using assms by (simp add: init_schedule_def)
qed simp

lemma schedule_inv_init: "schedule_inv acts (init_schedule acts)"
  unfolding schedule_inv_def entry_ok_def
proof (intro conjI ballI allI impI)
  show "dom (init_schedule acts) = act_id ` set acts" by (rule init_schedule_dom)
qed (auto dest: init_schedule_blank)

lemma distinct_ids_eq:
  assumes "distinct (map act_id acts)" "a \<in> set acts" "b \<in> set acts" "act_id a = act_id b"
  shows "a = b"
  using assms by (meson distinct_map inj_onD)

lemma scheduled_closed:
  assumes inv: "schedule_inv acts sch"
    and reach: "(pred_edge acts)\<^sup>*\<^sup>* i j"
    and sched: "sch i = Some e" "start e = Some s"
  shows "\<exists>e' s'. sch j = Some e' \<and> start e' = Some s'"
  using reach sched
proof (induction arbitrary: e s rule: converse_rtranclp_induct)
  case base
  then show ?case by blast
next
  case (step x y)
  from step.hyps(1) obtain a where a: "a \<in> set acts" "act_id a = x" "y \<in> set (predecessors a)"
    by (auto simp: pred_edge_def)
  from inv a step.prems have "entry_ok sch a e"
    by (auto simp: schedule_inv_def)
  with step.prems(2) a(3) obtain ep where "sch y = Some ep" "start ep \<noteq> None"
    unfolding entry_ok_def by blast
  then obtain sp where "sch y = Some ep" "start ep = Some sp" by auto
  then show ?case by (rule step.IH)
qed

lemma schedule_inv_update:
  assumes inv: "schedule_inv acts sch"
    and dist: "distinct (map act_id acts)"
    and a: "a \<in> set acts"
    and e: "sch (act_id a) = Some e" "start e = None"
    and chk: "check_predecessors sch (predecessors a) PROJECT_START = Inr (True, latest)"
    and s: "s = next_working_day (if predecessors a \<noteq> [] then latest else PROJECT_START)"
  shows "schedule_inv acts
           (sch(act_id a \<mapsto> e\<lparr>start := Some s,
                                  end_date := Some (add_working_days s (duration_days a))\<rparr>))"
    (is "schedule_inv acts ?sch'")
proof -
  let ?e' = "e\<lparr>start := Some s, end_date := Some (add_working_days s (duration_days a))\<rparr>"
  from inv have dom: "dom sch = act_id ` set acts"
    and entries: "\<And>b eb. b \<in> set acts \<Longrightarrow> sch (act_id b) = Some eb \<Longrightarrow> entry_ok sch b eb"
    and acyc: "\<And>i ei si. sch i = Some ei \<Longrightarrow> start ei = Some si \<Longrightarrow> \<not> (pred_edge acts)\<^sup>+\<^sup>+ i i"
    unfolding schedule_inv_def by blast+
  have unsched: "\<not> (\<exists>ex sx. sch (act_id a) = Some ex \<and> start ex = Some sx)"
    using e by auto
  have keep: "?sch' p = sch p" if "sch p = Some ep" "start ep \<noteq> None" for p ep
    using that e by (cases "p = act_id a") auto
  from check_predecessors_complete [OF chk]
  have latest: "PROJECT_START \<le> latest"
    and preds: "\<And>p. p \<in> set (predecessors a) \<Longrightarrow>
                  \<exists>ep d. sch p = Some ep \<and> end_date ep = Some d \<and> d \<le> latest"
    by blast+
  have preds_sched: "\<exists>ep d. sch p = Some ep \<and> start ep \<noteq> None \<and> end_date ep = Some d \<and> d \<le> s"
    if p: "p \<in> set (predecessors a)" for p
  proof -
    from preds [OF p] obtain ep d where ep: "sch p = Some ep" "end_date ep = Some d" "d \<le> latest"
      by blast
    from ep(1) dom obtain b where b: "b \<in> set acts" "act_id b = p"
      by (metis domI imageE)
    from entries [OF b(1)] ep(1) b(2) have "entry_ok sch b ep" by simp
    with ep(2) have "start ep \<noteq> None" unfolding entry_ok_def by auto
    moreover from p have "predecessors a \<noteq> []" by auto
    with s have "latest \<le> s" by (simp add: next_working_day_ge)
    ultimately show ?thesis using ep by auto
  qed
  have "dom ?sch' = act_id ` set acts"
    using dom a by auto
  moreover have "entry_ok ?sch' b eb" if b: "b \<in> set acts" and eb: "?sch' (act_id b) = Some eb" for b eb
  proof (cases "act_id b = act_id a")
    case True
    with dist a b have "b = a" by (metis distinct_ids_eq)
    moreover from True eb have "eb = ?e'" by simp
    moreover have "\<exists>ep d. ?sch' p = Some ep \<and> start ep \<noteq> None \<and> end_date ep = Some d \<and> d \<le> s"
      if "p \<in> set (predecessors a)" for p
      using preds_sched [OF that] keep by metis
    ultimately show ?thesis
      unfolding entry_ok_def using s by (auto simp: next_working_day_weekday)
  next
    case False
    with eb have old: "sch (act_id b) = Some eb" by simp
    from entries [OF b old] have ok: "entry_ok sch b eb" .
    have "\<exists>ep d. ?sch' p = Some ep \<and> start ep \<noteq> None \<and> end_date ep = Some d \<and> d \<le> sb"
      if "start eb = Some sb" "p \<in> set (predecessors b)" for p sb
    proof -
      from ok that obtain ep d where "sch p = Some ep" "start ep \<noteq> None" "end_date ep = Some d" "d \<le> sb"
        unfolding entry_ok_def by blast
      with keep show ?thesis by metis
    qed
    with ok show ?thesis unfolding entry_ok_def by blast
  qed
  moreover have "\<not> (pred_edge acts)\<^sup>+\<^sup>+ i i" if i: "?sch' i = Some ei" "start ei = Some si" for i ei si
  proof (cases "i = act_id a")
    case False
    with i acyc show ?thesis by auto
  next
    case True
    show ?thesis
    proof
      assume "(pred_edge acts)\<^sup>+\<^sup>+ i i"
      then obtain p where p: "pred_edge acts i p" "(pred_edge acts)\<^sup>*\<^sup>* p i"
        by (meson tranclpD)
      from p(1) True obtain b where b: "b \<in> set acts" "act_id b = act_id a" "p \<in> set (predecessors b)"
        by (auto simp: pred_edge_def)
      with dist a have "b = a" by (metis distinct_ids_eq)
      with b have "p \<in> set (predecessors a)" by simp
      from preds_sched [OF this] obtain ep sp where "sch p = Some ep" "start ep = Some sp"
        by auto
      from scheduled_closed [OF inv p(2) this] True unsched show False by simp
    qed
  qed
  ultimately show ?thesis unfolding schedule_inv_def by blast
qed


lemma schedule_pass_inv:
  assumes "schedule_pass xs sch pm = Inr (sch', pm')"
    and "set xs \<subseteq> set acts"
    and "distinct (map act_id acts)"
    and "schedule_inv acts sch"
  shows "schedule_inv acts sch'"
  using assms
proof (induction xs arbitrary: sch pm)
  case Nil
  then show ?case by simp
next
  case (Cons a xs)
  from Cons.prems(2) have a: "a \<in> set acts" and xs: "set xs \<subseteq> set acts" by auto
  from Cons.prems(1) obtain e where e: "sch (act_id a) = Some e"
    by (auto split: option.splits)
  show ?case
  proof (cases "start e \<noteq> None")
    case True
    with e Cons.prems(1) have "schedule_pass xs sch pm = Inr (sch', pm')" by simp
    from Cons.IH [OF this xs Cons.prems(3) Cons.prems(4)] show ?thesis .
  next
    case False
    then have none: "start e = None" by simp
    from Cons.prems(1) e none obtain complete latest
      where chk: "check_predecessors sch (predecessors a) PROJECT_START = Inr (complete, latest)"
      by (auto split: sum.splits)
    show ?thesis
    proof (cases complete)
      case False
      with e none chk Cons.prems(1) have "schedule_pass xs sch pm = Inr (sch', pm')" by simp
      from Cons.IH [OF this xs Cons.prems(3) Cons.prems(4)] show ?thesis .
    next
      case True
      define s where "s = next_working_day (if predecessors a \<noteq> [] then latest else PROJECT_START)"
      let ?sch = "sch(act_id a \<mapsto> e\<lparr>start := Some s,
                       end_date := Some (add_working_days s (duration_days a))\<rparr>)"
      from e none chk True Cons.prems(1) have run: "schedule_pass xs ?sch True = Inr (sch', pm')"
        by (simp add: Let_def s_def)
      from chk True have chk': "check_predecessors sch (predecessors a) PROJECT_START = Inr (True, latest)"
        by simp
      have "schedule_inv acts ?sch"
        using Cons.prems(4) Cons.prems(3) a e none chk' s_def
        by (rule schedule_inv_update)
      from Cons.IH [OF run xs Cons.prems(3) this] show ?thesis .
    qed
  qed
qed

lemma schedule_while_inv:
  assumes "schedule_while i m acts sch = Inr sch'"
    and "distinct (map act_id acts)"
    and "schedule_inv acts sch"
  shows "schedule_inv acts sch'"
  using assms
proof (induction i m acts sch rule: schedule_while.induct)
  case (1 i m acts sch)
  show ?case
  proof (cases "i < m")
    case False
    with "1.prems"(1) have "sch' = sch" by (subst (asm) schedule_while.simps) simp
    with "1.prems"(3) show ?thesis by simp
  next
    case True
    from "1.prems"(1) True obtain sch1 pm where pass: "schedule_pass acts sch False = Inr (sch1, pm)"
      by (subst (asm) schedule_while.simps) (auto split: sum.splits)
    have inv1: "schedule_inv acts sch1"
      using pass _ "1.prems"(2) "1.prems"(3) by (rule schedule_pass_inv) simp
    show ?thesis
    proof (cases pm)
      case False
      with "1.prems"(1) True pass have "sch' = sch1"
        by (subst (asm) schedule_while.simps) simp
      with inv1 show ?thesis by simp
    next
      case pm: True
      with "1.prems"(1) True pass have "schedule_while (i + 1) m acts sch1 = Inr sch'"
        by (subst (asm) schedule_while.simps) simp
      from "1.IH" [OF True pass refl _ this "1.prems"(2) inv1] pm show ?thesis
        by simp
    qed
  qed
qed

lemma calculate_activity_schedule_inv:
  assumes "calculate_activity_schedule acts = Inr sch"
    and "distinct (map act_id acts)"
  shows "schedule_inv acts sch"
  using assms schedule_inv_init [of acts]
  unfolding calculate_activity_schedule_def by (rule schedule_while_inv)

lemma schedule_pass_no_error:
  assumes "set xs \<subseteq> set acts"
    and "dom sch = act_id ` set acts"
    and "\<forall>a\<in>set acts. set (predecessors a) \<subseteq> act_id ` set acts"
  shows "\<exists>sch' pm'. schedule_pass xs sch pm = Inr (sch', pm') \<and> dom sch' = dom sch"
  using assms
proof (induction xs arbitrary: sch pm)
  case Nil
  then show ?case by simp
next
  case (Cons a xs)
  from Cons.prems(1) have a: "a \<in> set acts" and xs: "set xs \<subseteq> set acts" by auto
  from a Cons.prems(2) obtain e where e: "sch (act_id a) = Some e" by blast
  from a Cons.prems(2,3) have "set (predecessors a) \<subseteq> dom sch" by blast
  from check_predecessors_no_error [OF this] obtain complete latest
    where chk: "check_predecessors sch (predecessors a) PROJECT_START = Inr (complete, latest)"
    by (metis surj_pair)
  show ?case
  proof (cases "start e \<noteq> None \<or> \<not> complete")
    case True
    with e chk have "schedule_pass (a # xs) sch pm = schedule_pass xs sch pm" by auto
    with Cons.IH [OF xs Cons.prems(2) Cons.prems(3), of pm] show ?thesis by (simp only:)
  next
    case False
    define s where "s = next_working_day (if predecessors a \<noteq> [] then latest else PROJECT_START)"
    let ?sch = "sch(act_id a \<mapsto> e\<lparr>start := Some s,
                     end_date := Some (add_working_days s (duration_days a))\<rparr>)"
    from False e chk have run: "schedule_pass (a # xs) sch pm = schedule_pass xs ?sch True"
      by (simp add: Let_def s_def)
    have dom: "dom ?sch = dom sch" using e by auto
    with Cons.prems(2) have "dom ?sch = act_id ` set acts" by simp
    from Cons.IH [OF xs this Cons.prems(3), of True]
    obtain sch' pm' where "schedule_pass xs ?sch True = Inr (sch', pm')" "dom sch' = dom ?sch"
      by blast
    with run dom have "schedule_pass (a # xs) sch pm = Inr (sch', pm') \<and> dom sch' = dom sch"
      by (simp only:)
    then show ?thesis by blast
  qed
qed

lemma schedule_while_no_error:
  assumes "dom sch = act_id ` set acts"
    and "\<forall>a\<in>set acts. set (predecessors a) \<subseteq> act_id ` set acts"
  shows "\<exists>sch'. schedule_while i m acts sch = Inr sch'"
  using assms
proof (induction i m acts sch rule: schedule_while.induct)
  case (1 i m acts sch)
  show ?case
  proof (cases "i < m")
    case False
    then show ?thesis by (subst schedule_while.simps) simp
  next
    case True
    from schedule_pass_no_error [OF subset_refl "1.prems"(1) "1.prems"(2)]
    obtain sch1 pm where pass: "schedule_pass acts sch False = Inr (sch1, pm)"
      and dom: "dom sch1 = dom sch" by blast
    show ?thesis
    proof (cases pm)
      case False
      with True pass show ?thesis by (subst schedule_while.simps) simp
    next
      case pm: True
      from dom "1.prems"(1) have "dom sch1 = act_id ` set acts" by simp
      from "1.IH" [OF True pass refl _ this "1.prems"(2)] pm
      obtain sch' where "schedule_while (i + 1) m acts sch1 = Inr sch'" by auto
      with True pass pm show ?thesis by (subst schedule_while.simps) simp
    qed
  qed
qed

lemma calculate_activity_schedule_no_error:
  assumes "\<forall>a\<in>set acts. set (predecessors a) \<subseteq> act_id ` set acts"
  shows "\<exists>sch. calculate_activity_schedule acts = Inr sch"
  unfolding calculate_activity_schedule_def
  using init_schedule_dom assms by (rule schedule_while_no_error)

lemma dangling_eval:
  "(case calculate_activity_schedule dangling_activities of
      Inl err \<Rightarrow> err = KeyError
    | Inr sch \<Rightarrow> False)"
  by code_simp

text \<open>
  Claim C6 as stated fails at the activity set whose only activity names the unknown
  predecessor id 99: there the scheduler raises \<^verbatim>\<open>KeyError\<close> at
  \<^verbatim>\<open>schedule[pred_id]\<close> instead of returning a schedule.
\<close>

theorem missing_predecessor_raises:
  "calculate_activity_schedule dangling_activities = Inl KeyError"
  using dangling_eval by (simp split: sum.splits)

lemma chain_schedule_eval:
  "(case calculate_activity_schedule chain_activities of
      Inl err \<Rightarrow> False
    | Inr sch \<Rightarrow>
        sch 1 = Some \<lparr>start = Some 739621, end_date = Some 739628, entry_duration_days = 5\<rparr> \<and>
        sch 2 = Some \<lparr>start = Some 739628, end_date = Some 739637, entry_duration_days = 7\<rparr> \<and>
        sch 3 = Some \<lparr>start = Some 739637, end_date = Some 739642, entry_duration_days = 3\<rparr>)"
  by code_simp


lemma cyclic_schedule_eval:
  "(case calculate_activity_schedule cyclic_activities of
      Inl err \<Rightarrow> False
    | Inr sch \<Rightarrow>
        sch 3 = Some \<lparr>start = Some 739621, end_date = Some 739625, entry_duration_days = 4\<rparr>)"
  by code_simp

lemma project_start_is_monday: "next_working_day PROJECT_START = PROJECT_START"
  by (rule next_working_day_id) (simp add: weekday_def PROJECT_START_def)

text \<open>
  Claim C2. In the schedule the scheduler returns for activities with unique ids, every
  activity with a start date starts no earlier than the end date of each of its
  predecessors; without predecessors it starts on the project start date pushed past the
  weekend (which is the project start date itself, a Monday); and the start date is
  neither a Saturday nor a Sunday.
\<close>

theorem start_not_before_predecessors:
  assumes "calculate_activity_schedule acts = Inr sch"
    and "distinct (map act_id acts)"
    and "a \<in> set acts"
    and "sch (act_id a) = Some e"
    and "start e = Some s"
  shows "(\<forall>p\<in>set (predecessors a). \<exists>ep d. sch p = Some ep \<and> end_date ep = Some d \<and> d \<le> s) \<and>
         (predecessors a = [] \<longrightarrow> s = next_working_day PROJECT_START \<and> s = PROJECT_START) \<and>
         weekday s \<noteq> 5 \<and> weekday s \<noteq> 6"
proof -
  from calculate_activity_schedule_inv [OF assms(1,2)] assms(3,4)
  have "entry_ok sch a e" unfolding schedule_inv_def by blast
  with assms(5) have "weekday s \<le> 4"
    and "predecessors a = [] \<longrightarrow> s = next_working_day PROJECT_START"
    and "\<forall>p\<in>set (predecessors a).
           \<exists>ep d. sch p = Some ep \<and> start ep \<noteq> None \<and> end_date ep = Some d \<and> d \<le> s"
    unfolding entry_ok_def by blast+
  then show ?thesis using project_start_is_monday by auto
qed

theorem start_not_before_predecessors_witness:
  "\<exists>sch e1 e3 s1 s3.
     calculate_activity_schedule chain_activities = Inr sch \<and>
     sch 1 = Some e1 \<and> start e1 = Some s1 \<and> s1 = PROJECT_START \<and>
     sch 3 = Some e3 \<and> start e3 = Some s3 \<and>
     (\<exists>ep d. sch 1 = Some ep \<and> end_date ep = Some d \<and> d \<le> s3) \<and>
     (\<exists>ep d. sch 2 = Some ep \<and> end_date ep = Some d \<and> d \<le> s3) \<and>
     weekday s3 \<noteq> 5 \<and> weekday s3 \<noteq> 6"
proof -
  let ?a1 = "chain_activities ! 0" and ?a3 = "chain_activities ! 2"
  from chain_schedule_eval obtain sch where calc: "calculate_activity_schedule chain_activities = Inr sch"
    and e1: "sch 1 = Some \<lparr>start = Some 739621, end_date = Some 739628, entry_duration_days = 5\<rparr>"
    and e3: "sch 3 = Some \<lparr>start = Some 739637, end_date = Some 739642, entry_duration_days = 3\<rparr>"
    by (auto split: sum.splits)
  have dist: "distinct (map act_id chain_activities)"
    by (simp add: chain_activities_def)
  have a1: "?a1 \<in> set chain_activities" "act_id ?a1 = 1" "predecessors ?a1 = []"
    by (simp_all add: chain_activities_def)
  have a3: "?a3 \<in> set chain_activities" "act_id ?a3 = 3" "predecessors ?a3 = [1, 2]"
    by (simp_all add: chain_activities_def)
  from start_not_before_predecessors [OF calc dist a1(1), of _ 739621] e1 a1(2,3)
  have "(739621::int) = PROJECT_START" by simp
  moreover
  from start_not_before_predecessors [OF calc dist a3(1), of _ 739637] e3 a3(2,3)
  have "(\<exists>ep d. sch 1 = Some ep \<and> end_date ep = Some d \<and> d \<le> 739637) \<and>
        (\<exists>ep d. sch 2 = Some ep \<and> end_date ep = Some d \<and> d \<le> 739637) \<and>
        weekday 739637 \<noteq> 5 \<and> weekday 739637 \<noteq> 6"
    by simp
  ultimately show ?thesis using calc e1 e3 by auto
qed

text \<open>
  Claim C5. In the schedule the scheduler returns for activities with unique ids, every
  activity with a start date and a duration of at least 0 days has an end date that is not
  before the start date, and the number of working days after the start date up to the end
  date is the activity's duration.
\<close>

theorem end_after_start_by_duration:
  assumes "calculate_activity_schedule acts = Inr sch"
    and "distinct (map act_id acts)"
    and "a \<in> set acts"
    and "sch (act_id a) = Some e"
    and "start e = Some s"
    and "0 \<le> duration_days a"
  shows "\<exists>d. end_date e = Some d \<and> s \<le> d \<and> int (working_day_span s d) = duration_days a"
proof -
  from calculate_activity_schedule_inv [OF assms(1,2)] assms(3,4)
  have "entry_ok sch a e" unfolding schedule_inv_def by blast
  with assms(5) have "end_date e = Some (add_working_days s (duration_days a))"
    unfolding entry_ok_def by blast
  with add_working_days_ge [of s "duration_days a"] add_working_days_span [OF assms(6), of s]
  show ?thesis by simp
qed

theorem end_after_start_by_duration_witness:
  "\<exists>sch e.
     calculate_activity_schedule chain_activities = Inr sch \<and>
     sch 2 = Some e \<and> start e = Some 739628 \<and> end_date e = Some 739637 \<and>
     (739628::int) \<le> 739637 \<and> working_day_span 739628 739637 = 7"
proof -
  let ?a2 = "chain_activities ! 1"
  from chain_schedule_eval obtain sch where calc: "calculate_activity_schedule chain_activities = Inr sch"
    and e2: "sch 2 = Some \<lparr>start = Some 739628, end_date = Some 739637, entry_duration_days = 7\<rparr>"
    by (auto split: sum.splits)
  have dist: "distinct (map act_id chain_activities)"
    by (simp add: chain_activities_def)
  have a2: "?a2 \<in> set chain_activities" "act_id ?a2 = 2" "duration_days ?a2 = 7"
    by (simp_all add: chain_activities_def)
  have "sch (act_id ?a2) = Some \<lparr>start = Some 739628, end_date = Some 739637, entry_duration_days = 7\<rparr>"
    using e2 a2(2) by simp
  from end_after_start_by_duration [OF calc dist a2(1) this] a2(3)
  have "(739628::int) \<le> 739637 \<and> int (working_day_span 739628 739637) = 7" by simp
  with calc e2 show ?thesis by auto
qed


text \<open>
  Claim C6, amended: for every activity set with unique ids whose predecessor ids all name
  activities of the set, the scheduler returns a schedule without raising, and every
  activity on a predecessor cycle, or depending on one through predecessors, has neither a
  start nor an end date in it.
\<close>

theorem cycles_stay_unscheduled:
  assumes "distinct (map act_id acts)"
    and "\<forall>a\<in>set acts. set (predecessors a) \<subseteq> act_id ` set acts"
  shows "\<exists>sch. calculate_activity_schedule acts = Inr sch \<and>
           (\<forall>a\<in>set acts. blocked acts (act_id a) \<longrightarrow>
              (\<exists>e. sch (act_id a) = Some e \<and> start e = None \<and> end_date e = None))"
proof -
  from calculate_activity_schedule_no_error [OF assms(2)]
  obtain sch where calc: "calculate_activity_schedule acts = Inr sch" by blast
  from calculate_activity_schedule_inv [OF calc assms(1)] have inv: "schedule_inv acts sch" .
  then have dom: "dom sch = act_id ` set acts"
    and entries: "\<And>b eb. b \<in> set acts \<Longrightarrow> sch (act_id b) = Some eb \<Longrightarrow> entry_ok sch b eb"
    and acyc: "\<And>i ei si. sch i = Some ei \<Longrightarrow> start ei = Some si \<Longrightarrow> \<not> (pred_edge acts)\<^sup>+\<^sup>+ i i"
    unfolding schedule_inv_def by blast+
  have "\<exists>e. sch (act_id a) = Some e \<and> start e = None \<and> end_date e = None"
    if a: "a \<in> set acts" and blk: "blocked acts (act_id a)" for a
  proof -
    from a dom obtain e where e: "sch (act_id a) = Some e" by blast
    from blk obtain j where reach: "(pred_edge acts)\<^sup>*\<^sup>* (act_id a) j"
      and cyc: "(pred_edge acts)\<^sup>+\<^sup>+ j j"
      unfolding blocked_def by blast
    have "start e = None"
    proof (rule ccontr)
      assume "start e \<noteq> None"
      then obtain s where "start e = Some s" by auto
      from scheduled_closed [OF inv reach e this] obtain ej sj
        where "sch j = Some ej" "start ej = Some sj" by blast
      from acyc [OF this] cyc show False by simp
    qed
    moreover from entries [OF a e] this have "end_date e = None"
      unfolding entry_ok_def by simp
    ultimately show ?thesis using e by simp
  qed
  with calc show ?thesis by blast
qed

theorem cycles_stay_unscheduled_witness:
  "\<exists>sch. calculate_activity_schedule cyclic_activities = Inr sch \<and>
     (\<exists>e. sch 1 = Some e \<and> start e = None \<and> end_date e = None) \<and>
     (\<exists>e. sch 2 = Some e \<and> start e = None \<and> end_date e = None) \<and>
     (\<exists>e. sch 4 = Some e \<and> start e = None \<and> end_date e = None) \<and>
     (\<exists>e. sch 3 = Some e \<and> start e = Some 739621)"
proof -
  have dist: "distinct (map act_id cyclic_activities)"
    by (simp add: cyclic_activities_def)
  have known: "\<forall>a\<in>set cyclic_activities.
                 set (predecessors a) \<subseteq> act_id ` set cyclic_activities"
    by (simp add: cyclic_activities_def)
  have e12: "pred_edge cyclic_activities 1 2" and e21: "pred_edge cyclic_activities 2 1"
    and e42: "pred_edge cyclic_activities 4 2"
    by (simp_all add: pred_edge_def cyclic_activities_def)
  from e12 e21 have c1: "(pred_edge cyclic_activities)\<^sup>+\<^sup>+ 1 1" by (rule tranclp.intros(2) [OF tranclp.intros(1)])
  from e21 e12 have c2: "(pred_edge cyclic_activities)\<^sup>+\<^sup>+ 2 2" by (rule tranclp.intros(2) [OF tranclp.intros(1)])
  have b1: "blocked cyclic_activities 1" unfolding blocked_def using c1 by blast
  have b2: "blocked cyclic_activities 2" unfolding blocked_def using c2 by blast
  have b4: "blocked cyclic_activities 4" unfolding blocked_def using c2 e42 by blast
  from cycles_stay_unscheduled [OF dist known]
  obtain sch where calc: "calculate_activity_schedule cyclic_activities = Inr sch"
    and null: "\<forall>a\<in>set cyclic_activities. blocked cyclic_activities (act_id a) \<longrightarrow>
              (\<exists>e. sch (act_id a) = Some e \<and> start e = None \<and> end_date e = None)"
    by blast
  from null b1 b2 b4
  have "(\<exists>e. sch 1 = Some e \<and> start e = None \<and> end_date e = None) \<and>
        (\<exists>e. sch 2 = Some e \<and> start e = None \<and> end_date e = None) \<and>
        (\<exists>e. sch 4 = Some e \<and> start e = None \<and> end_date e = None)"
    by (simp add: cyclic_activities_def)
  moreover from cyclic_schedule_eval calc have "\<exists>e. sch 3 = Some e \<and> start e = Some 739621"
    by simp
  ultimately show ?thesis using calc by blast
qed

text \<open>
  When a missing predecessor id is read. The predecessor loop raises \<^verbatim>\<open>KeyError\<close> at an
  id that is not a key when every predecessor listed before it has an end date. For
  activities with unique ids, an activity whose first predecessor is an unknown id makes
  the scheduler raise, whatever the other activities are.
\<close>

lemma check_predecessors_error:
  "check_predecessors sch ps l = Inl err \<Longrightarrow> err = KeyError"
  by (induction ps arbitrary: l) (auto split: option.splits)

lemma check_predecessors_missing:
  assumes "sch p = None"
    and "\<forall>q\<in>set ps. \<exists>e d. sch q = Some e \<and> end_date e = Some d"
  shows "check_predecessors sch (ps @ p # rest) l = Inl KeyError"
  using assms by (induction ps arbitrary: l) auto

lemma schedule_pass_unknown_first:
  assumes "a \<in> set xs"
    and "distinct (map act_id xs)"
    and "predecessors a = p # ps"
    and "p \<notin> act_id ` set xs"
    and "sch p = None"
    and "sch (act_id a) = Some e"
    and "start e = None"
  shows "schedule_pass xs sch pm = Inl KeyError"
  using assms
proof (induction xs arbitrary: sch pm)
  case Nil
  then show ?case by simp
next
  case (Cons b xs)
  show ?case
  proof (cases "b = a")
    case True
    with Cons.prems(3,5,6,7) show ?thesis by simp
  next
    case False
    with Cons.prems(1) have a: "a \<in> set xs" by simp
    from Cons.prems(2) have dist: "distinct (map act_id xs)" by simp
    from Cons.prems(2) a have ne: "act_id b \<noteq> act_id a" by auto
    from Cons.prems(4) have p: "p \<notin> act_id ` set xs" and pb: "p \<noteq> act_id b" by auto
    note IH = Cons.IH [OF a dist Cons.prems(3) p]
    show ?thesis
    proof (cases "sch (act_id b)")
      case None
      then show ?thesis by simp
    next
      case (Some eb)
      show ?thesis
      proof (cases "start eb \<noteq> None")
        case True
        with Some IH [OF Cons.prems(5,6,7)] show ?thesis by simp
      next
        case unsched: False
        show ?thesis
        proof (cases "check_predecessors sch (predecessors b) PROJECT_START")
          case (Inl err)
          with check_predecessors_error [OF Inl] Some unsched show ?thesis by simp
        next
          case (Inr r)
          obtain complete latest where r: "r = (complete, latest)" by (cases r)
          show ?thesis
          proof (cases complete)
            case False
            with Some unsched Inr r IH [OF Cons.prems(5,6,7)] show ?thesis by simp
          next
            case True
            define s where "s = next_working_day (if predecessors b \<noteq> [] then latest else PROJECT_START)"
            let ?sch = "sch(act_id b \<mapsto> eb\<lparr>start := Some s,
                       end_date := Some (add_working_days s (duration_days b))\<rparr>)"
            from Some unsched Inr r True
            have run: "schedule_pass (b # xs) sch pm = schedule_pass xs ?sch True"
              by (simp add: Let_def s_def)
            have "?sch p = None" using Cons.prems(5) pb by simp
            moreover have "?sch (act_id a) = Some e" using Cons.prems(6) ne by simp
            ultimately have "schedule_pass xs ?sch True = Inl KeyError"
              using Cons.prems(7) by (rule IH)
            with run show ?thesis by (simp only:)
          qed
        qed
      qed
    qed
  qed
qed

lemma init_schedule_entry:
  assumes "a \<in> set acts"
  shows "\<exists>e. init_schedule acts (act_id a) = Some e \<and> start e = None"
proof -
  from assms have "act_id a \<in> dom (init_schedule acts)" by (simp add: init_schedule_dom)
  then obtain e where "init_schedule acts (act_id a) = Some e" by blast
  with init_schedule_blank [OF this] show ?thesis by blast
qed

lemma unknown_first_predecessor_raises:
  assumes "distinct (map act_id acts)"
    and "a \<in> set acts"
    and "predecessors a = p # ps"
    and "p \<notin> act_id ` set acts"
  shows "calculate_activity_schedule acts = Inl KeyError"
proof -
  from init_schedule_entry [OF assms(2)] obtain e
    where e: "init_schedule acts (act_id a) = Some e" "start e = None" by blast
  from assms(4) have "p \<notin> dom (init_schedule acts)" by (simp add: init_schedule_dom)
  then have "init_schedule acts p = None" by blast
  from schedule_pass_unknown_first [OF assms(2,1,3,4) this e]
  have pass: "schedule_pass acts (init_schedule acts) False = Inl KeyError" .
  from assms(2) have "0 < length acts * 2" by (cases acts) auto
  with pass show ?thesis
    unfolding calculate_activity_schedule_def
    by (subst schedule_while.simps) simp
qed

section \<open>Properties of the risk optimizer\<close>

lemma optimize_loop_zero_budget:
  "optimize_loop risks (Some 0) cs best = optimize_loop risks None cs best"
  by (induction risks "Some (0::rat)" cs best rule: optimize_loop.induct)
     (simp_all add: over_budget_def Let_def split: prod.splits)

text \<open>
  Claim C9. A budget constraint of exactly 0 switches the budget filter off: the optimizer
  returns what it returns without a constraint, for every list of risks. For the example
  risk it selects the paid option, whose cost of 100 is above the budget of 0.
\<close>

theorem zero_budget_is_no_budget:
  "optimize_mitigation_strategy risks (Some 0) = optimize_mitigation_strategy risks None \<and>
   map_option mitigations (optimize_mitigation_strategy [demo_risk] (Some 0)) = Some [buy_option] \<and>
   map_option total_cost (optimize_mitigation_strategy [demo_risk] (Some 0)) = Some 100"
  by (simp add: optimize_mitigation_strategy_def optimize_loop_zero_budget demo_risk_def
        buy_option_def accept_option_def over_budget_def exceeds_def)

text \<open>
  Claim C1, at the budget 0. The claim asks for a budget-feasible combination of maximal
  net benefit: with a budget of 0 the only feasible combination of the example risk is the
  free option, of net benefit 0. The optimizer returns the paid option instead, with a
  total cost of 100 and a net benefit of 400.
\<close>

theorem budget_zero_returns_infeasible:
  "optimize_mitigation_strategy [demo_risk] (Some 0) =
     Some \<lparr>mitigations = [buy_option], total_cost = 100, expected_reduction = 500,
           expected_time_reduction = 0, net_benefit = 400\<rparr> \<and>
   filter (\<lambda>c. (\<Sum>m\<leftarrow>c. cost m) \<le> 0) (product_lists (map mitigation_options [demo_risk])) =
     [[accept_option]] \<and>
   net_benefit_of [demo_risk] [accept_option] = 0"
  by (simp add: optimize_mitigation_strategy_def demo_risk_def
        buy_option_def accept_option_def over_budget_def exceeds_def net_benefit_of_def)

section \<open>Properties of the duration adjustment\<close>

lemma surplus_of_skills_eq:
  "surplus_of_skills r reqs t =
     t + (\<Sum>(skill, required_level)\<leftarrow>reqs.
        if required_level > 0 then max 0 (skill_level (skills r) skill - required_level) else 0)"
  by (induction r reqs t rule: surplus_of_skills.induct) (simp_all add: Let_def)

lemma surplus_of_resources_eq:
  "surplus_of_resources rs reqs t = t + skill_surplus_floored rs reqs"
  by (induction rs arbitrary: t) (simp_all add: skill_surplus_floored_def surplus_of_skills_eq)

text \<open>Truncation towards zero and rounding half up agree once the result is clamped to 1.\<close>

lemma max_one_py_int: "max 1 (py_int y) = max 1 (round (y - 1 / 2))"
proof (cases "y \<ge> 0")
  case True
  then show ?thesis by (simp add: py_int_def round_def)
next
  case False
  then have "\<lceil>y\<rceil> \<le> 0" by (simp add: ceiling_le_iff)
  moreover have "\<lfloor>y\<rfloor> \<le> 0" using False by (simp add: floor_le_iff)
  ultimately show ?thesis using False by (simp add: py_int_def round_def max_def)
qed

lemma adjust_duration_formula:
  assumes "0 < num_people a"
  shows "adjust_duration a rs factor =
           Inr (adjusted_duration_formula a factor (skill_surplus_floored rs (skill_requirements a)))"
  using assms
  by (simp add: adjust_duration_def adjusted_duration_formula_def Let_def HOURS_PER_DAY_def
        surplus_of_resources_eq max_one_py_int)

text \<open>
  The allocation pass adjusts a duration only after \<^verbatim>\<open>_allocate_to_activity\<close> returned a
  non-empty list, and then the headcount is positive.
\<close>

lemma allocated_nonempty_headcount:
  assumes "allocate_to_activity sch pool a max_tasks = (allocated, pool')"
    and "allocated \<noteq> []"
  shows "0 < num_people a"
proof (rule ccontr)
  assume "\<not> 0 < num_people a"
  then have "nat (min (num_people a) n) = 0" for n by simp
  with assms show False
    by (simp add: allocate_to_activity_def Let_def split: if_splits)
qed





lemma half_le_round:
  fixes z :: rat
  assumes "of_int D / 2 \<le> z"
  shows "D \<le> 2 * round z"
proof -
  have "z - 1 / 2 < of_int (round z)"
    by (rule of_int_round_gt)
  with assms have "(of_int D :: rat) - 1 < of_int (2 * round z)"
    by simp
  then have "(of_int (D - 1) :: rat) < of_int (2 * round z)"
    by simp
  then have "D - 1 < 2 * round z"
    by (simp only: of_int_less_iff)
  then show ?thesis by simp
qed

text \<open>
  Claim C4. For every activity with a positive headcount (which every activity with an
  allocated resource has), every list of allocated resources and every factor, the
  adjustment returns a duration of at least 1 day and at least half of the duration
  before the adjustment.
\<close>

theorem adjusted_duration_bounds:
  assumes "0 < num_people a"
  shows "\<exists>d. adjust_duration a rs factor = Inr d \<and> 1 \<le> d \<and> duration_days a \<le> 2 * d"
proof -
  let ?n = "num_people a"
  let ?D = "duration_days a"
  let ?S = "skill_surplus_floored rs (skill_requirements a)"
  let ?base = "of_int (?n * ?D * 8) :: rat"
  let ?red = "max (?base / 2) (?base - of_int (factor * ?S))"
  let ?z = "?red / of_int (?n * 8)"
  have d: "adjust_duration a rs factor = Inr (max 1 (round ?z))"
    using adjust_duration_formula [OF assms, of rs factor]
    by (simp add: adjusted_duration_formula_def Let_def)
  have pos: "(0::rat) < of_int (?n * 8)" using assms by simp
  have "?base / 2 \<le> ?red" by simp
  then have "?base / 2 / of_int (?n * 8) \<le> ?z"
    using pos by (simp only: divide_right_mono less_imp_le)
  moreover have "?base / 2 / of_int (?n * 8) = of_int ?D / 2"
    using assms by simp
  ultimately have "of_int ?D / 2 \<le> ?z" by simp
  then have "?D \<le> 2 * round ?z" by (rule half_le_round)
  then have "?D \<le> 2 * max 1 (round ?z)" by simp
  with d show ?thesis by simp
qed

theorem adjusted_duration_bounds_witness:
  "0 < num_people deficit_activity \<and>
   (\<exists>d. adjust_duration deficit_activity [deficit_resource] 2 = Inr d \<and> 1 \<le> d \<and>
        duration_days deficit_activity \<le> 2 * d)"
proof -
  have h: "0 < num_people deficit_activity"
    by (simp add: deficit_activity_def)
  from adjusted_duration_bounds [OF h] h show ?thesis by blast
qed

section \<open>Properties of the allocator\<close>

lemma matches_skills_loop_eq:
  "matches_skills_loop r reqs acc =
     (if has_required_skills r reqs then (True, acc + surplus_score r reqs) else (False, 0))"
  by (induction r reqs acc rule: matches_skills_loop.induct)
     (auto simp: has_required_skills_def surplus_score_def Let_def)

lemma candidate_of_eq:
  "candidate_of pool a week max_tasks i =
     (if qualifies pool a week max_tasks i
      then Some \<lparr>cand_resource = i,
                 cand_surplus = surplus_score (pool ! i) (skill_requirements a),
                 cand_cost = cost_per_hour (pool ! i)\<rparr>
      else None)"
  by (auto simp: candidate_of_def qualifies_def is_available_def can_take_task_def
        matches_skills_def matches_skills_loop_eq Let_def)

lemma find_candidates_eq:
  "find_candidates pool a week max_tasks =
     map (\<lambda>i. \<lparr>cand_resource = i,
                cand_surplus = surplus_score (pool ! i) (skill_requirements a),
                cand_cost = cost_per_hour (pool ! i)\<rparr>)
       (qualifying pool a week max_tasks)"
proof -
  have "List.map_filter (candidate_of pool a week max_tasks) xs =
        map (\<lambda>i. \<lparr>cand_resource = i,
                cand_surplus = surplus_score (pool ! i) (skill_requirements a),
                cand_cost = cost_per_hour (pool ! i)\<rparr>)
          (filter (qualifies pool a week max_tasks) xs)" for xs
    by (induction xs) (simp_all add: List.map_filter_simps candidate_of_eq)
  then show ?thesis by (simp add: find_candidates_def qualifying_def)
qed


lemma allocate_to_activity_eq:
  "allocate_to_activity sch pool a max_tasks =
     (let ranked = map cand_resource
                     (sort_key sort_key_of (find_candidates pool a (activity_week sch a) max_tasks));
          allocated = take (nat (num_people a)) ranked
      in (allocated, fold (\<lambda>i p. assign_task (act_id a) p i) allocated pool))"
proof -
  have "take (nat (min n (int (length xs)))) xs = take (nat n) xs" for n and xs :: "candidate list"
    by (cases "n \<le> int (length xs)") (simp_all add: min_def)
  then show ?thesis
    by (simp add: allocate_to_activity_def Let_def take_map)
qed

lemma ranked_candidates:
  fixes pool a week max_tasks
  defines "ranked \<equiv> map cand_resource (sort_key sort_key_of (find_candidates pool a week max_tasks))"
  shows "set ranked = set (qualifying pool a week max_tasks)"
    and "distinct ranked"
    and "\<And>m n. m < n \<Longrightarrow> n < length ranked \<Longrightarrow> ranks_before pool a (ranked ! m) (ranked ! n)"
proof -
  let ?mk = "\<lambda>i. \<lparr>cand_resource = i,
                cand_surplus = surplus_score (pool ! i) (skill_requirements a),
                cand_cost = cost_per_hour (pool ! i)\<rparr>"
  let ?Q = "qualifying pool a week max_tasks"
  let ?S = "sort_key sort_key_of (map ?mk ?Q)"
  have ranked: "ranked = map cand_resource ?S"
    by (simp add: ranked_def find_candidates_eq)
  have setS: "set ?S = ?mk ` set ?Q" by simp
  have mk: "c = ?mk (cand_resource c)" if "c \<in> set ?S" for c
    using that setS by auto
  show "set ranked = set ?Q"
    unfolding ranked by (simp add: image_image)
  have "distinct ?Q" by (simp add: qualifying_def)
  moreover have "inj_on cand_resource (?mk ` set ?Q)"
    by (auto intro: inj_onI)
  moreover have "inj_on ?mk (set ?Q)"
    by (auto intro: inj_onI)
  ultimately show "distinct ranked"
    unfolding ranked by (simp add: distinct_map)
  fix m n assume mn: "m < n" "n < length ranked"
  then have len: "m < length ?S" "n < length ?S" by (simp_all add: ranked)
  have "sorted (map sort_key_of ?S)" by (rule sorted_sort_key)
  with mn len have le: "sort_key_of (?S ! m) \<le> sort_key_of (?S ! n)"
    by (simp add: sorted_iff_nth_mono)
  from len have "?S ! m \<in> set ?S" "?S ! n \<in> set ?S" by (simp_all only: nth_mem)
  then have "?S ! m = ?mk (cand_resource (?S ! m))" "?S ! n = ?mk (cand_resource (?S ! n))"
    by (blast dest: mk)+
  moreover have "ranked ! m = cand_resource (?S ! m)" "ranked ! n = cand_resource (?S ! n)"
    using len by (simp_all add: ranked)
  ultimately have "sort_key_of (?S ! m) =
        (- surplus_score (pool ! (ranked ! m)) (skill_requirements a), cost_per_hour (pool ! (ranked ! m)))"
    and "sort_key_of (?S ! n) =
        (- surplus_score (pool ! (ranked ! n)) (skill_requirements a), cost_per_hour (pool ! (ranked ! n)))"
    by (metis sort_key_of_def candidate.select_convs(2,3))+
  with le show "ranks_before pool a (ranked ! m) (ranked ! n)"
    by (auto simp: ranks_before_def less_eq_prod_def)
qed

text \<open>
  Claim C8. For every activity (required levels on the scale from 0 upwards) and resource
  pool: a resource whose level is 0 for a skill required at a nonzero level is not
  allocated, whatever its other skills; the qualifying resources, ordered by surplus
  descending and hourly cost ascending on ties, form a list whose first
  \<^verbatim>\<open>num_people\<close> entries are exactly the allocated resources, in that order.
\<close>

theorem skill_match_ranking:
  assumes "allocate_to_activity sch pool a max_tasks = (allocated, pool')"
    and "\<forall>(skill, required_level)\<in>set (skill_requirements a). 0 \<le> required_level"
  shows "(\<forall>i<length pool.
            (\<exists>(skill, required_level)\<in>set (skill_requirements a).
                required_level \<noteq> 0 \<and> skill_level (skills (pool ! i)) skill = 0)
            \<longrightarrow> i \<notin> set allocated) \<and>
         (\<exists>ranked.
            set ranked = set (qualifying pool a (activity_week sch a) max_tasks) \<and>
            distinct ranked \<and>
            (\<forall>m n. m < n \<longrightarrow> n < length ranked \<longrightarrow> ranks_before pool a (ranked ! m) (ranked ! n)) \<and>
            allocated = take (nat (num_people a)) ranked)"
proof -
  define ranked where "ranked = map cand_resource
     (sort_key sort_key_of (find_candidates pool a (activity_week sch a) max_tasks))"
  from assms(1) have alloc: "allocated = take (nat (num_people a)) ranked"
    by (simp add: allocate_to_activity_eq Let_def ranked_def)
  have set_ranked: "set ranked = set (qualifying pool a (activity_week sch a) max_tasks)"
    and dist: "distinct ranked"
    and order: "\<And>m n. m < n \<Longrightarrow> n < length ranked \<Longrightarrow> ranks_before pool a (ranked ! m) (ranked ! n)"
    unfolding ranked_def by (rule ranked_candidates)+
  have "i \<notin> set allocated"
    if "\<exists>(skill, required_level)\<in>set (skill_requirements a).
          required_level \<noteq> 0 \<and> skill_level (skills (pool ! i)) skill = 0" for i
  proof
    assume "i \<in> set allocated"
    with alloc have "i \<in> set ranked" by (auto dest: in_set_takeD)
    with set_ranked have "has_required_skills (pool ! i) (skill_requirements a)"
      by (simp add: qualifying_def qualifies_def)
    with that assms(2) show False
      unfolding has_required_skills_def by fastforce
  qed
  with alloc set_ranked dist order show ?thesis by blast
qed

lemma team_allocation_eval:
  "fst (allocate_to_activity Map.empty team_pool team_activity 6) = [3, 1] \<and>
   qualifying team_pool team_activity 1 6 = [1, 2, 3]"
  by code_simp

theorem skill_match_ranking_witness:
  "\<exists>allocated pool'.
     allocate_to_activity Map.empty team_pool team_activity 6 = (allocated, pool') \<and>
     allocated = [3, 1] \<and> 0 \<notin> set allocated \<and>
     (\<exists>ranked. set ranked = {1, 2, 3} \<and> distinct ranked \<and> allocated = take 2 ranked)"
proof -
  obtain allocated pool' where run: "allocate_to_activity Map.empty team_pool team_activity 6 = (allocated, pool')"
    by (cases "allocate_to_activity Map.empty team_pool team_activity 6")
  with team_allocation_eval have alloc: "allocated = [3, 1]" by simp
  have week: "activity_week Map.empty team_activity = 1" by (simp add: activity_week_def)
  have levels: "\<forall>(skill, required_level)\<in>set (skill_requirements team_activity). 0 \<le> required_level"
    by (simp add: team_activity_def)
  have miss: "\<exists>(skill, required_level)\<in>set (skill_requirements team_activity).
                required_level \<noteq> 0 \<and> skill_level (skills (team_pool ! 0)) skill = 0"
    by (simp add: team_activity_def team_pool_def skill_level_def)
  have len: "0 < length team_pool" by (simp add: team_pool_def)
  have people: "nat (num_people team_activity) = 2" by (simp add: team_activity_def)
  from skill_match_ranking [OF run levels] obtain ranked
    where excl: "\<forall>i<length team_pool.
            (\<exists>(skill, required_level)\<in>set (skill_requirements team_activity).
                required_level \<noteq> 0 \<and> skill_level (skills (team_pool ! i)) skill = 0)
            \<longrightarrow> i \<notin> set allocated"
      and r1: "set ranked = set (qualifying team_pool team_activity (activity_week Map.empty team_activity) 6)"
      and r2: "distinct ranked"
      and r4: "allocated = take (nat (num_people team_activity)) ranked"
    by blast
  from excl len miss have no0: "0 \<notin> set allocated" by (simp only:) blast
  from r1 week team_allocation_eval have set3: "set ranked = {1, 2, 3}" by simp
  from r4 people have "allocated = take 2 ranked" by simp
  with set3 r2 have "\<exists>ranked. set ranked = {1, 2, 3} \<and> distinct ranked \<and> allocated = take 2 ranked"
    by blast
  with run alloc no0 show ?thesis by blast
qed

lemma length_assign_task [simp]: "length (assign_task aid pool i) = length pool"
  by (simp add: assign_task_def)

lemma length_fold_assign [simp]:
  "length (fold (\<lambda>i p. assign_task aid p i) js pool) = length pool"
  by (induction js arbitrary: pool) simp_all

lemma assign_task_nth_other: "j \<noteq> i \<Longrightarrow> assign_task aid pool i ! j = pool ! j"
  by (simp add: assign_task_def)

lemma fold_assign_nth_other:
  "i \<notin> set js \<Longrightarrow> fold (\<lambda>i p. assign_task aid p i) js pool ! i = pool ! i"
  by (induction js arbitrary: pool) (auto simp: assign_task_nth_other)

lemma distinct_nth_notin_take:
  assumes "distinct xs" "k < length xs"
  shows "xs ! k \<notin> set (take k xs)"
proof
  assume "xs ! k \<in> set (take k xs)"
  then obtain j where j: "j < length (take k xs)" "take k xs ! j = xs ! k"
    by (auto simp: in_set_conv_nth)
  then have "j < k" "xs ! j = xs ! k" by simp_all
  with assms show False by (simp add: nth_eq_iff_index_eq)
qed

lemma allocate_to_activity_assignment_ok:
  assumes "allocate_to_activity sch pool a max_tasks = (allocated, pool')"
  shows "pool' = fold (\<lambda>i p. assign_task (act_id a) p i) allocated pool"
    and "assignment_ok (act_id a) (activity_week sch a) max_tasks pool allocated"
proof -
  define ranked where "ranked = map cand_resource
     (sort_key sort_key_of (find_candidates pool a (activity_week sch a) max_tasks))"
  from assms have alloc: "allocated = take (nat (num_people a)) ranked"
    and pool': "pool' = fold (\<lambda>i p. assign_task (act_id a) p i) allocated pool"
    by (auto simp: allocate_to_activity_eq Let_def ranked_def)
  show "pool' = fold (\<lambda>i p. assign_task (act_id a) p i) allocated pool" by (rule pool')
  have set_ranked: "set ranked = set (qualifying pool a (activity_week sch a) max_tasks)"
    and "distinct ranked"
    unfolding ranked_def by (rule ranked_candidates)+
  then have dist: "distinct allocated" by (simp add: alloc)
  have q: "i < length pool \<and> qualifies pool a (activity_week sch a) max_tasks i"
    if "i \<in> set allocated" for i
  proof -
    from that alloc have "i \<in> set ranked" by (auto dest: in_set_takeD)
    with set_ranked show ?thesis by (simp add: qualifying_def)
  qed
  show "assignment_ok (act_id a) (activity_week sch a) max_tasks pool allocated"
    unfolding assignment_ok_def
  proof (intro allI impI)
    fix k assume k: "k < length allocated"
    then have "allocated ! k \<in> set allocated" by simp
    from q [OF this] have lt: "allocated ! k < length pool"
      and ok: "qualifies pool a (activity_week sch a) max_tasks (allocated ! k)" by simp_all
    from distinct_nth_notin_take [OF dist k]
    have "fold (\<lambda>i p. assign_task (act_id a) p i) (take k allocated) pool ! (allocated ! k)
            = pool ! (allocated ! k)"
      by (rule fold_assign_nth_other)
    with lt ok show "allocated ! k < length pool \<and>
        (let r = fold (\<lambda>i p. assign_task (act_id a) p i) (take k allocated) pool ! (allocated ! k)
         in start_week r \<le> activity_week sch a \<and>
            activity_week sch a \<notin> set (vacation_weeks r) \<and>
            int (length (assigned_tasks r)) < max_tasks)"
      by (simp add: qualifies_def Let_def)
  qed
qed

lemma allocate_fallback_loop_trace:
  assumes "allocate_fallback_loop a week max_tasks is alloc pool = (alloc', pool')"
    and "\<forall>i\<in>set is. i < length pool"
  shows "\<exists>new. alloc' = alloc @ new \<and>
           pool' = fold (\<lambda>i p. assign_task (act_id a) p i) new pool \<and>
           assignment_ok (act_id a) week max_tasks pool new"
  using assms
proof (induction "is" arbitrary: alloc pool)
  case Nil
  then show ?case by (simp add: assignment_ok_def)
next
  case (Cons i rest)
  from Cons.prems(2) have i: "i < length pool" and rest: "\<forall>j\<in>set rest. j < length pool"
    by simp_all
  show ?case
  proof (cases "int (length alloc) \<ge> num_people a")
    case True
    with Cons.prems(1) show ?thesis by (simp add: assignment_ok_def)
  next
    case False
    show ?thesis
    proof (cases "is_available (pool ! i) week \<and> can_take_task (pool ! i) max_tasks")
      case skip: False
      with False Cons.prems(1)
      have "allocate_fallback_loop a week max_tasks rest alloc pool = (alloc', pool')" by auto
      from Cons.IH [OF this rest] show ?thesis .
    next
      case take: True
      let ?pool = "assign_task (act_id a) pool i"
      from take False Cons.prems(1)
      have run: "allocate_fallback_loop a week max_tasks rest (alloc @ [i]) ?pool = (alloc', pool')"
        by simp
      from rest have "\<forall>j\<in>set rest. j < length ?pool" by simp
      from Cons.IH [OF run this] obtain new
        where new: "alloc' = (alloc @ [i]) @ new"
          "pool' = fold (\<lambda>i p. assign_task (act_id a) p i) new ?pool"
          "assignment_ok (act_id a) week max_tasks ?pool new"
        by blast
      have "assignment_ok (act_id a) week max_tasks pool (i # new)"
        unfolding assignment_ok_def
      proof (intro allI impI)
        fix k assume k: "k < length (i # new)"
        show "(i # new) ! k < length pool \<and>
          (let r = fold (\<lambda>i p. assign_task (act_id a) p i) (take k (i # new)) pool ! ((i # new) ! k)
           in start_week r \<le> week \<and> week \<notin> set (vacation_weeks r) \<and>
              int (length (assigned_tasks r)) < max_tasks)"
        proof (cases k)
          case 0
          with i take show ?thesis
            by (auto simp: is_available_def can_take_task_def split: if_splits)
        next
          case (Suc k')
          with k have "k' < length new" by simp
          with new(3) Suc show ?thesis
            unfolding assignment_ok_def by (simp add: Let_def)
        qed
      qed
      with new(1,2) show ?thesis by (intro exI [of _ "i # new"]) simp
    qed
  qed
qed

text \<open>
  Claim C7. In both \<^verbatim>\<open>_allocate_to_activity\<close> and \<^verbatim>\<open>_allocate_fallback\<close> the pool
  after the call is the pool before it with the activity id appended to the allocated
  resources in order, and at each of these appends the resource is available in the
  activity's scheduled week (started, not on vacation) and holds fewer tasks than the cap.
\<close>

theorem assignments_respect_availability_and_cap:
  "(case allocate_to_activity sch pool a max_tasks of
      (allocated, pool') \<Rightarrow>
        pool' = fold (\<lambda>i p. assign_task (act_id a) p i) allocated pool \<and>
        assignment_ok (act_id a) (activity_week sch a) max_tasks pool allocated) \<and>
   (case allocate_fallback_loop a (activity_week (schedule st) a) max_tasks
           [0..<length (resources st)] [] (resources st) of
      (allocated, pool') \<Rightarrow>
        resources (allocate_fallback st a max_tasks) = pool' \<and>
        pool' = fold (\<lambda>i p. assign_task (act_id a) p i) allocated (resources st) \<and>
        assignment_ok (act_id a) (activity_week (schedule st) a) max_tasks (resources st) allocated)"
proof (intro conjI)
  show "case allocate_to_activity sch pool a max_tasks of
      (allocated, pool') \<Rightarrow>
        pool' = fold (\<lambda>i p. assign_task (act_id a) p i) allocated pool \<and>
        assignment_ok (act_id a) (activity_week sch a) max_tasks pool allocated"
    using allocate_to_activity_assignment_ok [of sch pool a max_tasks]
    by (cases "allocate_to_activity sch pool a max_tasks") simp
next
  obtain allocated pool'
    where run: "allocate_fallback_loop a (activity_week (schedule st) a) max_tasks
           [0..<length (resources st)] [] (resources st) = (allocated, pool')"
    by (cases "allocate_fallback_loop a (activity_week (schedule st) a) max_tasks
           [0..<length (resources st)] [] (resources st)")
  have "\<forall>i\<in>set [0..<length (resources st)]. i < length (resources st)" by simp
  from allocate_fallback_loop_trace [OF run this]
  have tr: "pool' = fold (\<lambda>i p. assign_task (act_id a) p i) allocated (resources st)"
    "assignment_ok (act_id a) (activity_week (schedule st) a) max_tasks (resources st) allocated"
    by simp_all
  have "resources (allocate_fallback st a max_tasks) = pool'"
    using run by (simp add: allocate_fallback_def Let_def)
  with run tr show "case allocate_fallback_loop a (activity_week (schedule st) a) max_tasks
           [0..<length (resources st)] [] (resources st) of
      (allocated, pool') \<Rightarrow>
        resources (allocate_fallback st a max_tasks) = pool' \<and>
        pool' = fold (\<lambda>i p. assign_task (act_id a) p i) allocated (resources st) \<and>
        assignment_ok (act_id a) (activity_week (schedule st) a) max_tasks (resources st) allocated"
    by simp
qed

lemma team_fallback_eval:
  "fst (allocate_fallback_loop large_activity 1 6 [0..<length team_pool] [] team_pool) = [0, 1, 2, 3]"
  by code_simp

theorem assignments_respect_availability_and_cap_witness:
  "fst (allocate_to_activity Map.empty team_pool team_activity 6) = [3, 1] \<and>
   assignment_ok 5 1 6 team_pool [3, 1] \<and>
   start_week (team_pool ! 3) \<le> 1 \<and> 1 \<notin> set (vacation_weeks (team_pool ! 3)) \<and>
   int (length (assigned_tasks (team_pool ! 3))) < 6 \<and>
   fst (allocate_fallback_loop large_activity 1 6 [0..<length team_pool] [] team_pool) = [0, 1, 2, 3] \<and>
   assignment_ok 7 1 6 team_pool [0, 1, 2, 3]"
proof -
  have week: "activity_week Map.empty team_activity = 1" "activity_week (schedule team_state) large_activity = 1"
    by (simp_all add: activity_week_def team_state_def)
  have ids: "act_id team_activity = 5" "act_id large_activity = 7"
    by (simp_all add: team_activity_def large_activity_def)
  have res: "resources team_state = team_pool" by (simp add: team_state_def)
  note inst1 = assignments_respect_availability_and_cap
    [where sch = Map.empty and pool = team_pool and a = team_activity
      and max_tasks = 6 and st = team_state]
  note inst2 = assignments_respect_availability_and_cap
    [where sch = Map.empty and pool = team_pool and a = large_activity
      and max_tasks = 6 and st = team_state]
  from inst1 team_allocation_eval week ids
  have a1: "assignment_ok 5 1 6 team_pool [3, 1]"
    by (auto split: prod.splits)
  from inst2 team_fallback_eval week ids res
  have a2: "assignment_ok 7 1 6 team_pool [0, 1, 2, 3]"
    by (auto split: prod.splits)
  from a1 have "start_week (team_pool ! 3) \<le> 1 \<and> 1 \<notin> set (vacation_weeks (team_pool ! 3)) \<and>
   int (length (assigned_tasks (team_pool ! 3))) < 6"
    unfolding assignment_ok_def by (auto simp: Let_def dest: spec [of _ 0])
  with a1 a2 team_allocation_eval team_fallback_eval show ?thesis by simp
qed

section \<open>Properties of the allocation pass\<close>

lemma reschedule_no_error:
  assumes "k < length acts"
    and "\<forall>b\<in>set acts. set (predecessors b) \<subseteq> act_id ` set acts"
  shows "\<exists>sch. calculate_activity_schedule (acts[k := (acts ! k)\<lparr>duration_days := d\<rparr>]) = Inr sch"
proof (rule calculate_activity_schedule_no_error, rule ballI)
  let ?acts = "acts[k := (acts ! k)\<lparr>duration_days := d\<rparr>]"
  fix b assume b: "b \<in> set ?acts"
  have ids: "map act_id ?acts = map act_id acts"
    using assms(1) by (simp add: map_update list_update_same_conv)
  then have same: "act_id ` set ?acts = act_id ` set acts"
    by (metis set_map)
  from b have "b \<in> set acts \<or> b = (acts ! k)\<lparr>duration_days := d\<rparr>"
    by (auto dest: set_update_subset_insert [THEN subsetD])
  then have "\<exists>b'\<in>set acts. predecessors b = predecessors b'"
    using assms(1) by (auto intro: bexI [of _ "acts ! k"])
  then obtain b' where "b' \<in> set acts" "predecessors b = predecessors b'" by blast
  with assms(2) have "set (predecessors b) \<subseteq> act_id ` set acts" by metis
  with same show "set (predecessors b) \<subseteq> act_id ` set ?acts"
    by simp
qed

lemma allocate_step_matched:
  assumes k: "k < length (activities st)"
    and a: "a = activities st ! k"
    and run: "allocate_to_activity (schedule st) (resources st) a max_tasks = (allocated, pool')"
    and ne: "allocated \<noteq> []"
    and preds: "\<forall>b\<in>set (activities st). set (predecessors b) \<subseteq> act_id ` set (activities st)"
  shows "\<exists>st'. allocate_step max_tasks factor st k = Inr st' \<and>
           resources st' = pool' \<and>
           allocation_map st' (act_id a) = Some allocated \<and>
           \<not> fallback_ran st st'"
proof -
  from allocated_nonempty_headcount [OF run ne] have "0 < num_people a" .
  from adjust_duration_formula [OF this] obtain d
    where adj: "adjust_duration a (map (\<lambda>i. pool' ! i) allocated) factor = Inr d"
    by blast
  let ?ev = "[AllocatingFor (act_id a), Allocated (map (\<lambda>i. res_name (pool' ! i)) allocated)]"
  let ?st1 = "st\<lparr>resources := pool',
                 allocation_map := (allocation_map st)(act_id a \<mapsto> allocated),
                 printed := printed st @ ?ev\<rparr>"
  show ?thesis
  proof (cases "d = duration_days a")
    case True
    with k a run ne adj have "allocate_step max_tasks factor st k = Inr ?st1"
      by (simp add: allocate_step_def Let_def)
    then show ?thesis
      by (auto simp: fallback_ran_def new_events_def)
  next
    case False
    from reschedule_no_error [OF k preds, of d] a obtain sch
      where "calculate_activity_schedule ((activities st)[k := a\<lparr>duration_days := d\<rparr>]) = Inr sch"
      by auto
    with False k a run ne adj
    have "allocate_step max_tasks factor st k =
            Inr (?st1\<lparr>activities := (activities st)[k := a\<lparr>duration_days := d\<rparr>],
                      schedule := sch,
                      printed := printed ?st1 @ [DurationAdjusted (duration_days a) d]\<rparr>)"
      by (simp add: allocate_step_def Let_def)
    then show ?thesis
      by (auto simp: fallback_ran_def new_events_def)
  qed
qed

lemma allocate_step_unmatched:
  assumes a: "a = activities st ! k"
    and run: "allocate_to_activity (schedule st) (resources st) a max_tasks = ([], pool')"
  shows "\<exists>st'. allocate_step max_tasks factor st k = Inr st' \<and> fallback_ran st st'"
proof -
  let ?st = "st\<lparr>printed := printed st @ [AllocatingFor (act_id a), Warning]\<rparr>"
  from a run have step: "allocate_step max_tasks factor st k = Inr (allocate_fallback ?st a max_tasks)"
    by (simp add: allocate_step_def Let_def)
  have "\<exists>evs. printed (allocate_fallback ?st a max_tasks) = printed ?st @ evs"
    by (auto simp: allocate_fallback_def Let_def split: prod.splits)
  then obtain evs where "printed (allocate_fallback ?st a max_tasks) =
      printed st @ [AllocatingFor (act_id a), Warning] @ evs"
    by auto
  then have "Warning \<in> set (new_events st (allocate_fallback ?st a max_tasks))"
    by (simp add: new_events_def)
  with step show ?thesis by (simp add: fallback_ran_def)
qed


text \<open>
  Claim C10. In the step of the allocation pass for an activity with a positive headcount
  (predecessor ids all known, so that rescheduling returns): the fallback runs, and the
  warning is printed, exactly when no resource qualifies; when at least one but fewer
  than \<^verbatim>\<open>num_people\<close> resources qualify, exactly the qualifying resources are assigned
  and recorded in the allocation map, fewer than the required headcount.
\<close>

theorem partial_match_skips_fallback:
  assumes k: "k < length (activities st)"
    and a: "a = activities st ! k"
    and Q: "Q = qualifying (resources st) a (activity_week (schedule st) a) max_tasks"
    and people: "0 < num_people a"
    and preds: "\<forall>b\<in>set (activities st). set (predecessors b) \<subseteq> act_id ` set (activities st)"
  shows "\<exists>st'. allocate_step max_tasks factor st k = Inr st' \<and>
           (fallback_ran st st' \<longleftrightarrow> Q = []) \<and>
           (Q \<noteq> [] \<and> int (length Q) < num_people a \<longrightarrow>
              (\<exists>allocated.
                 allocation_map st' (act_id a) = Some allocated \<and>
                 set allocated = set Q \<and> distinct allocated \<and>
                 int (length allocated) < num_people a \<and>
                 resources st' = fold (\<lambda>i p. assign_task (act_id a) p i) allocated (resources st)))"
proof -
  define ranked where "ranked = map cand_resource
     (sort_key sort_key_of (find_candidates (resources st) a (activity_week (schedule st) a) max_tasks))"
  obtain allocated pool'
    where run: "allocate_to_activity (schedule st) (resources st) a max_tasks = (allocated, pool')"
    by (cases "allocate_to_activity (schedule st) (resources st) a max_tasks")
  then have alloc: "allocated = take (nat (num_people a)) ranked"
    by (auto simp: allocate_to_activity_eq Let_def ranked_def)
  have set_ranked: "set ranked = set Q" and dist: "distinct ranked"
    unfolding ranked_def Q by (rule ranked_candidates)+
  have "distinct Q" by (simp add: Q qualifying_def)
  with set_ranked dist have len: "length ranked = length Q"
    by (metis distinct_card)
  show ?thesis
  proof (cases "Q = []")
    case True
    with set_ranked alloc have "allocated = []" by simp
    with run allocate_step_unmatched [OF a, of max_tasks pool' factor] True
    show ?thesis by auto
  next
    case False
    with len have "ranked \<noteq> []" by auto
    with alloc people have ne: "allocated \<noteq> []" by (cases ranked) (auto simp: take_Cons')
    from allocate_step_matched [OF k a run ne preds, of factor] obtain st'
      where st': "allocate_step max_tasks factor st k = Inr st'" "resources st' = pool'"
        "allocation_map st' (act_id a) = Some allocated" "\<not> fallback_ran st st'"
      by blast
    have pool': "pool' = fold (\<lambda>i p. assign_task (act_id a) p i) allocated (resources st)"
      using run by (rule allocate_to_activity_assignment_ok)
    have "set allocated = set Q \<and> distinct allocated \<and> int (length allocated) < num_people a"
      if short: "int (length Q) < num_people a"
    proof -
      from short len have "length ranked \<le> nat (num_people a)" by simp
      with alloc have "allocated = ranked" by simp
      with set_ranked dist len short show ?thesis by simp
    qed
    with st' pool' False show ?thesis by auto
  qed
qed

lemma team_qualifying_eval: "qualifying team_pool large_activity 1 6 = [1, 2, 3]"
  by code_simp

theorem partial_match_skips_fallback_witness:
  "\<exists>st' allocated.
     allocate_step 6 2 team_state 0 = Inr st' \<and> \<not> fallback_ran team_state st' \<and>
     allocation_map st' 7 = Some allocated \<and> set allocated = {1, 2, 3} \<and>
     distinct allocated \<and> int (length allocated) < 4"
proof -
  have k: "0 < length (activities team_state)" by (simp add: team_state_def)
  have a: "large_activity = activities team_state ! 0" by (simp add: team_state_def)
  have Q: "[1, 2, 3] = qualifying (resources team_state) large_activity
             (activity_week (schedule team_state) large_activity) 6"
    using team_qualifying_eval by (simp add: team_state_def activity_week_def)
  have people: "0 < num_people large_activity" by (simp add: large_activity_def)
  have preds: "\<forall>b\<in>set (activities team_state).
                 set (predecessors b) \<subseteq> act_id ` set (activities team_state)"
    by (simp add: team_state_def large_activity_def team_activity_def)
  from partial_match_skips_fallback [OF k a Q people preds, of 2]
  show ?thesis by (auto simp: large_activity_def)
qed

section \<open>The optimizer's search over the accepted combinations\<close>

text \<open>
  In the exact arithmetic of this model, for every risk list and budget, the optimizer
  returns nothing when the budget test lets no combination through, and otherwise the
  first combination of maximal net benefit among those it lets through, in product order.
  The test is budget feasibility for a nonzero budget and lets everything through for a
  budget of 0 or none. These lemmas are about exact net benefits: the code compares the
  doubles it computed, and two net benefits that are equal or nearly equal in exact
  arithmetic can compare differently after rounding.
\<close>

lemma benefit_loop_eq:
  "benefit_loop xs (x, y) =
     (x + (\<Sum>(r, m)\<leftarrow>xs. probability r * (cost_reduction m + time_reduction m * 1000)),
      y + (\<Sum>(r, m)\<leftarrow>xs. probability r * time_reduction m))"
  by (induction xs arbitrary: x y) (auto simp: Let_def)

lemma optimize_loop_Cons:
  "optimize_loop risks b (c # cs) (bs, bn) =
     optimize_loop risks b cs
       (if within_budget b c \<and> exceeds (net_benefit_of risks c) bn
        then (Some (strategy_of risks c), Some (net_benefit_of risks c))
        else (bs, bn))"
  by (simp add: Let_def benefit_loop_eq within_budget_def strategy_of_def net_benefit_of_def)

lemma optimize_loop_filter:
  "optimize_loop risks b cs best = optimize_loop risks b (filter (within_budget b) cs) best"
proof (induction cs arbitrary: best)
  case Nil
  then show ?case by simp
next
  case (Cons c cs)
  obtain bs bn where best: "best = (bs, bn)" by (cases best)
  show ?case
    unfolding best using Cons.IH
    by (simp only: optimize_loop_Cons filter.simps split: if_splits) auto
qed

lemma optimize_loop_from_some:
  assumes "\<forall>c\<in>set cs. within_budget b c"
  shows "\<exists>i<length (c0 # cs).
           optimize_loop risks b cs (Some (strategy_of risks c0), Some (net_benefit_of risks c0)) =
             (Some (strategy_of risks ((c0 # cs) ! i)), Some (net_benefit_of risks ((c0 # cs) ! i))) \<and>
           (\<forall>j<length (c0 # cs).
              net_benefit_of risks ((c0 # cs) ! j) \<le> net_benefit_of risks ((c0 # cs) ! i)) \<and>
           (\<forall>j<i. net_benefit_of risks ((c0 # cs) ! j) < net_benefit_of risks ((c0 # cs) ! i))"
  using assms
proof (induction cs arbitrary: c0)
  case Nil
  then show ?case by simp
next
  case (Cons c cs)
  let ?n = "net_benefit_of risks"
  from Cons.prems have ok: "within_budget b c" and rest: "\<forall>c\<in>set cs. within_budget b c"
    by simp_all
  show ?case
  proof (cases "?n c > ?n c0")
    case True
    then have step: "optimize_loop risks b (c # cs) (Some (strategy_of risks c0), Some (?n c0)) =
        optimize_loop risks b cs (Some (strategy_of risks c), Some (?n c))"
      using ok by (simp add: optimize_loop_Cons exceeds_def del: optimize_loop.simps)
    from Cons.IH [OF rest, of c] obtain i where i: "i < length (c # cs)"
      "optimize_loop risks b cs (Some (strategy_of risks c), Some (?n c)) =
         (Some (strategy_of risks ((c # cs) ! i)), Some (?n ((c # cs) ! i)))"
      "\<forall>j<length (c # cs). ?n ((c # cs) ! j) \<le> ?n ((c # cs) ! i)"
      "\<forall>j<i. ?n ((c # cs) ! j) < ?n ((c # cs) ! i)"
      by blast
    from i(3) have "?n c \<le> ?n ((c # cs) ! i)" by force
    with True have c0: "?n c0 < ?n ((c # cs) ! i)" by simp
    have "\<forall>j<length (c0 # c # cs). ?n ((c0 # c # cs) ! j) \<le> ?n ((c0 # c # cs) ! Suc i)"
    proof (intro allI impI)
      fix j assume "j < length (c0 # c # cs)"
      then show "?n ((c0 # c # cs) ! j) \<le> ?n ((c0 # c # cs) ! Suc i)"
        using c0 i(3) by (cases j) auto
    qed
    moreover have "\<forall>j<Suc i. ?n ((c0 # c # cs) ! j) < ?n ((c0 # c # cs) ! Suc i)"
    proof (intro allI impI)
      fix j assume "j < Suc i"
      then show "?n ((c0 # c # cs) ! j) < ?n ((c0 # c # cs) ! Suc i)"
        using c0 i(4) by (cases j) auto
    qed
    ultimately show ?thesis
      using step i(1,2) by (intro exI [of _ "Suc i"]) simp
  next
    case False
    then have step: "optimize_loop risks b (c # cs) (Some (strategy_of risks c0), Some (?n c0)) =
        optimize_loop risks b cs (Some (strategy_of risks c0), Some (?n c0))"
      by (simp add: optimize_loop_Cons exceeds_def del: optimize_loop.simps)
    from Cons.IH [OF rest, of c0] obtain i where i: "i < length (c0 # cs)"
      "optimize_loop risks b cs (Some (strategy_of risks c0), Some (?n c0)) =
         (Some (strategy_of risks ((c0 # cs) ! i)), Some (?n ((c0 # cs) ! i)))"
      "\<forall>j<length (c0 # cs). ?n ((c0 # cs) ! j) \<le> ?n ((c0 # cs) ! i)"
      "\<forall>j<i. ?n ((c0 # cs) ! j) < ?n ((c0 # cs) ! i)"
      by blast
    show ?thesis
    proof (cases i)
      case 0
      have "\<forall>j<length (c0 # c # cs). ?n ((c0 # c # cs) ! j) \<le> ?n c0"
      proof (intro allI impI)
        fix j assume j: "j < length (c0 # c # cs)"
        show "?n ((c0 # c # cs) ! j) \<le> ?n c0"
        proof (cases j)
          case 0
          then show ?thesis by simp
        next
          case (Suc j')
          show ?thesis
          proof (cases j')
            case 0
            with Suc False show ?thesis by simp
          next
            case (Suc j'')
            with \<open>j = Suc j'\<close> j i(3) \<open>i = 0\<close> show ?thesis by force
          qed
        qed
      qed
      with step i(2) 0 show ?thesis
        by (intro exI [of _ 0]) simp
    next
      case (Suc i')
      from i(4) Suc have c0: "?n c0 < ?n ((c0 # cs) ! i)" by force
      with False have c: "?n c < ?n ((c0 # cs) ! i)" by simp
      have nth: "(c0 # c # cs) ! Suc i = (c0 # cs) ! i" using Suc by simp
      have "\<forall>j<length (c0 # c # cs). ?n ((c0 # c # cs) ! j) \<le> ?n ((c0 # c # cs) ! Suc i)"
      proof (intro allI impI)
        fix j assume j: "j < length (c0 # c # cs)"
        show "?n ((c0 # c # cs) ! j) \<le> ?n ((c0 # c # cs) ! Suc i)"
        proof (cases j)
          case 0
          with c0 nth show ?thesis by simp
        next
          case (Suc j')
          show ?thesis
          proof (cases j')
            case 0
            with Suc c nth show ?thesis by simp
          next
            case (Suc j'')
            with \<open>j = Suc j'\<close> j have "Suc j'' < length (c0 # cs)" by simp
            with i(3) have "?n ((c0 # cs) ! Suc j'') \<le> ?n ((c0 # cs) ! i)" by blast
            with Suc \<open>j = Suc j'\<close> nth show ?thesis by simp
          qed
        qed
      qed
      moreover have "\<forall>j<Suc i. ?n ((c0 # c # cs) ! j) < ?n ((c0 # c # cs) ! Suc i)"
      proof (intro allI impI)
        fix j assume j: "j < Suc i"
        show "?n ((c0 # c # cs) ! j) < ?n ((c0 # c # cs) ! Suc i)"
        proof (cases j)
          case 0
          with c0 nth show ?thesis by simp
        next
          case (Suc j')
          show ?thesis
          proof (cases j')
            case 0
            with Suc c nth show ?thesis by simp
          next
            case (Suc j'')
            with \<open>j = Suc j'\<close> j have "Suc j'' < i" by simp
            with i(4) have "?n ((c0 # cs) ! Suc j'') < ?n ((c0 # cs) ! i)" by blast
            with Suc \<open>j = Suc j'\<close> nth show ?thesis by simp
          qed
        qed
      qed
      ultimately show ?thesis
        using step i(1,2) nth by (intro exI [of _ "Suc i"]) simp
    qed
  qed
qed


lemma within_budget_cases:
  "within_budget None c"
  "within_budget (Some 0) c"
  "b \<noteq> 0 \<Longrightarrow> within_budget (Some b) c \<longleftrightarrow> (\<Sum>m\<leftarrow>c. cost m) \<le> b"
  by (auto simp: within_budget_def over_budget_def)

lemma optimizer_none:
  assumes "filter (within_budget b) (product_lists (map mitigation_options risks)) = []"
  shows "optimize_mitigation_strategy risks b = None"
  unfolding optimize_mitigation_strategy_def
  by (subst optimize_loop_filter) (simp add: assms)

lemma optimizer_first_maximum:
  assumes "cs = filter (within_budget b) (product_lists (map mitigation_options risks))"
    and "cs \<noteq> []"
  shows "\<exists>i<length cs.
           optimize_mitigation_strategy risks b = Some (strategy_of risks (cs ! i)) \<and>
           (\<forall>j<length cs. net_benefit_of risks (cs ! j) \<le> net_benefit_of risks (cs ! i)) \<and>
           (\<forall>j<i. net_benefit_of risks (cs ! j) < net_benefit_of risks (cs ! i))"
proof -
  from assms(2) obtain c0 rest where cs: "cs = c0 # rest" by (cases cs) auto
  have "\<forall>c\<in>set cs. within_budget b c" by (simp add: assms(1))
  with cs have ok: "within_budget b c0" "\<forall>c\<in>set rest. within_budget b c" by simp_all
  have "optimize_loop risks b (product_lists (map mitigation_options risks)) (None, None) =
        optimize_loop risks b (c0 # rest) (None, None)"
    by (subst optimize_loop_filter) (simp add: assms(1) [symmetric] cs)
  also have "\<dots> = optimize_loop risks b rest
        (Some (strategy_of risks c0), Some (net_benefit_of risks c0))"
    using ok(1) by (simp add: optimize_loop_Cons exceeds_def del: optimize_loop.simps)
  finally have run: "optimize_mitigation_strategy risks b =
      fst (optimize_loop risks b rest (Some (strategy_of risks c0), Some (net_benefit_of risks c0)))"
    by (simp add: optimize_mitigation_strategy_def)
  from optimize_loop_from_some [OF ok(2), of c0 risks] run cs show ?thesis
    by auto
qed

section \<open>Frame properties of the allocation pass\<close>

text \<open>
  Through the whole pass the stored schedule is the scheduler's result for the current
  activities (durations included), and a step changes the allocation map only at the id of
  its own activity, so an activity's entry stays as its step left it.
\<close>

lemma allocate_fallback_keeps_schedule:
  "activities (allocate_fallback st a max_tasks) = activities st \<and>
   schedule (allocate_fallback st a max_tasks) = schedule st"
  by (simp add: allocate_fallback_def Let_def split: prod.splits)

lemma allocate_step_schedule_current:
  assumes "allocate_step max_tasks factor st k = Inr st'"
    and "calculate_activity_schedule (activities st) = Inr (schedule st)"
  shows "calculate_activity_schedule (activities st') = Inr (schedule st')"
  using assms
  by (auto simp: allocate_step_def Let_def allocate_fallback_keeps_schedule
           split: prod.splits sum.splits if_splits)

lemma allocate_loop_schedule_current:
  assumes "allocate_loop max_tasks factor ks st = Inr st'"
    and "calculate_activity_schedule (activities st) = Inr (schedule st)"
  shows "calculate_activity_schedule (activities st') = Inr (schedule st')"
  using assms
proof (induction ks arbitrary: st)
  case Nil
  then show ?case by simp
next
  case (Cons k ks)
  from Cons.prems(1) obtain st1 where step: "allocate_step max_tasks factor st k = Inr st1"
    and rest: "allocate_loop max_tasks factor ks st1 = Inr st'"
    by (auto split: sum.splits)
  from allocate_step_schedule_current [OF step Cons.prems(2)] Cons.IH [OF rest]
  show ?case by blast
qed

lemma allocation_pass_schedule_current:
  assumes "allocation_pass st max_tasks factor = Inr st'"
  shows "calculate_activity_schedule (activities st') = Inr (schedule st')"
proof -
  from assms obtain sch where sch: "calculate_activity_schedule (activities st) = Inr sch"
    and loop: "allocate_loop max_tasks factor
            (sort_key (\<lambda>k. act_id (activities st ! k)) [0..<length (activities st)])
            (st\<lparr>schedule := sch, printed := printed st @ [Starting]\<rparr>) = Inr st'"
    by (auto simp: allocation_pass_def split: sum.splits)
  from loop show ?thesis
    by (rule allocate_loop_schedule_current) (simp add: sch)
qed


lemma map_act_id_update:
  "map act_id (acts[k := (acts ! k)\<lparr>duration_days := d\<rparr>]) = map act_id acts"
proof (cases "k < length acts")
  case True
  then show ?thesis by (simp add: map_update list_update_same_conv)
next
  case False
  then have "acts[k := (acts ! k)\<lparr>duration_days := d\<rparr>] = acts"
    by (intro list_update_beyond) simp
  then show ?thesis by (simp only:)
qed

lemma allocate_fallback_frame:
  "activities (allocate_fallback st a max_tasks) = activities st"
  "i \<noteq> act_id a \<Longrightarrow> allocation_map (allocate_fallback st a max_tasks) i = allocation_map st i"
  by (simp_all add: allocate_fallback_def Let_def split: prod.splits)

lemma allocate_step_frame:
  assumes "allocate_step max_tasks factor st k = Inr st'"
  shows "map act_id (activities st') = map act_id (activities st)"
    and "act_id (activities st ! k) \<noteq> i \<Longrightarrow> allocation_map st' i = allocation_map st i"
  using assms
  by (auto simp: allocate_step_def Let_def allocate_fallback_frame map_act_id_update
           split: prod.splits sum.splits if_splits)

lemma allocate_loop_frame:
  assumes "allocate_loop max_tasks factor ks st = Inr st'"
    and "\<forall>k\<in>set ks. k < length (activities st) \<and> act_id (activities st ! k) \<noteq> i"
  shows "allocation_map st' i = allocation_map st i"
  using assms
proof (induction ks arbitrary: st)
  case Nil
  then show ?case by simp
next
  case (Cons k ks)
  from Cons.prems(1) obtain st1 where step: "allocate_step max_tasks factor st k = Inr st1"
    and rest: "allocate_loop max_tasks factor ks st1 = Inr st'"
    by (auto split: sum.splits)
  from allocate_step_frame [OF step] Cons.prems(2)
  have ids: "map act_id (activities st1) = map act_id (activities st)"
    and keep: "allocation_map st1 i = allocation_map st i"
    by simp_all
  from ids have len: "length (activities st1) = length (activities st)"
    by (metis length_map)
  have "\<forall>j\<in>set ks. j < length (activities st1) \<and> act_id (activities st1 ! j) \<noteq> i"
  proof
    fix j assume j: "j \<in> set ks"
    with Cons.prems(2) have lt: "j < length (activities st)" and ne: "act_id (activities st ! j) \<noteq> i"
      by simp_all
    from lt len ids have "act_id (activities st1 ! j) = act_id (activities st ! j)"
      by (metis nth_map)
    with lt len ne show "j < length (activities st1) \<and> act_id (activities st1 ! j) \<noteq> i"
      by simp
  qed
  from Cons.IH [OF rest this] keep show ?case by simp
qed

end
